theory Spec2Isabelle
  imports Complex_Main "HOL-Library.Sublist" "HOL-Library.Char_ord" "HOL-Library.List_Lexorder"
begin

section \<open>BoolODE: the simulation-and-sampling engine of run\_experiment.py\<close>

text \<open>
  The development embeds \<^verbatim>\<open>Experiment\<close> and \<^verbatim>\<open>simulateAndSample\<close> of
  \<^verbatim>\<open>src/BoolODE/run_experiment.py\<close>. Python exceptions are values of the type
  \<open>error\<close>; a computation that may raise returns \<open>error + 'a\<close>. The values of a
  trajectory are IEEE 754 double-precision numbers, with their infinities and NaN. The two
  places where the code computes with doubles, the product \<open>0.1 * x_max\<close> and the grid of
  \<^verbatim>\<open>np.linspace\<close>, round every operation to the nearest double, ties to even.
\<close>

subsection \<open>Exceptions\<close>

datatype error =
    NameError string
  | UnboundLocalError string
  | KeyError string
  | ValueError
  | IndexError
  | FileNotFoundError string
  | FloatingPointError

text \<open>In Python \<^verbatim>\<open>UnboundLocalError\<close> is a subclass of \<^verbatim>\<open>NameError\<close>.\<close>

fun is_NameError :: "error \<Rightarrow> bool" where
  "is_NameError (NameError v) = True"
| "is_NameError (UnboundLocalError v) = True"
| "is_NameError e = False"

text \<open>A \<^verbatim>\<open>for\<close> loop whose body may raise: the first exception ends the loop.\<close>

fun for_each :: "('a \<Rightarrow> 's \<Rightarrow> error + 's) \<Rightarrow> 'a list \<Rightarrow> 's \<Rightarrow> error + 's" where
  "for_each body [] s = Inr s"
| "for_each body (x # xs) s =
     (case body x s of Inl e \<Rightarrow> Inl e | Inr s' \<Rightarrow> for_each body xs s')"

text \<open>A list comprehension whose element expression may raise.\<close>

fun comprehension :: "('a \<Rightarrow> error + 'b) \<Rightarrow> 'a list \<Rightarrow> error + 'b list" where
  "comprehension f [] = Inr []"
| "comprehension f (x # xs) =
     (case f x of
        Inl e \<Rightarrow> Inl e
      | Inr y \<Rightarrow> (case comprehension f xs of Inl e \<Rightarrow> Inl e | Inr ys \<Rightarrow> Inr (y # ys)))"

subsection \<open>Double-precision numbers\<close>

text \<open>
  A double is finite (the real number it denotes), an infinity, or NaN. The comparisons
  \<^verbatim>\<open><\<close> and \<^verbatim>\<open><=\<close> are false as soon as one side is NaN; the maximum of a numpy
  reduction is NaN as soon as one element is.
\<close>

datatype double = Finite real | PosInf | NegInf | NaN

fun lt_double :: "double \<Rightarrow> double \<Rightarrow> bool" where
  "lt_double NaN b = False"
| "lt_double a NaN = False"
| "lt_double (Finite a) (Finite b) = (a < b)"
| "lt_double (Finite a) PosInf = True"
| "lt_double NegInf (Finite b) = True"
| "lt_double NegInf PosInf = True"
| "lt_double a b = False"

fun le_double :: "double \<Rightarrow> double \<Rightarrow> bool" where
  "le_double NaN b = False"
| "le_double a NaN = False"
| "le_double (Finite a) (Finite b) = (a \<le> b)"
| "le_double a PosInf = True"
| "le_double NegInf b = True"
| "le_double a b = False"

definition max_double :: "double \<Rightarrow> double \<Rightarrow> double" where
  "max_double a b = (if a = NaN \<or> b = NaN then NaN else if lt_double a b then b else a)"

text \<open>
  Rounding to an integer, a half going to the even neighbour: \<^verbatim>\<open>np.round\<close>, and the
  rounding of a significand.
\<close>

definition np_round :: "real \<Rightarrow> int" where
  "np_round x =
     (let f = \<lfloor>x\<rfloor>; d = x - of_int f
      in if d < 1 / 2 then f
         else if 1 / 2 < d then f + 1
         else if even f then f else f + 1)"

text \<open>
  Rounding a real number to the nearest double (binary64: 53 significant bits, ties to
  even). \<open>binade x\<close> is the exponent \<open>e\<close> with \<open>2^e \<le> |x| < 2^(e+1)\<close>, not below
  the exponent \<open>-1022\<close> of the subnormal numbers; \<open>ulp x\<close> is the spacing \<open>2^(e-52)\<close> of
  the doubles there. Overflow to an infinity is left out: the numbers rounded here are a
  tenth of \<^verbatim>\<open>x_max\<close> and grid points between 0 and the length of an array.
\<close>

definition binade :: "real \<Rightarrow> int" where
  "binade x = max \<lfloor>log 2 \<bar>x\<bar>\<rfloor> (- 1022)"

definition ulp :: "real \<Rightarrow> real" where
  "ulp x = 2 powr (of_int (binade x) - 52)"

definition round_binary64 :: "real \<Rightarrow> real" where
  "round_binary64 x = (if x = 0 then 0 else of_int (np_round (x / ulp x)) * ulp x)"

text \<open>The arithmetic of doubles on finite values, and the double written \<^verbatim>\<open>0.1\<close>.\<close>

definition fl_add :: "real \<Rightarrow> real \<Rightarrow> real" where
  "fl_add a b = round_binary64 (a + b)"

definition fl_sub :: "real \<Rightarrow> real \<Rightarrow> real" where
  "fl_sub a b = round_binary64 (a - b)"

definition fl_mul :: "real \<Rightarrow> real \<Rightarrow> real" where
  "fl_mul a b = round_binary64 (a * b)"

definition fl_div :: "real \<Rightarrow> real \<Rightarrow> real" where
  "fl_div a b = round_binary64 (a / b)"

definition float_0_1 :: real where
  "float_0_1 = 3602879701896397 / 2 ^ 55"

subsection \<open>Strings and paths\<close>

text \<open>\<^verbatim>\<open>str(n)\<close> of a non-negative integer: its decimal digits.\<close>

fun str_nat :: "nat \<Rightarrow> string" where
  "str_nat n =
     (if n < 10 then [''0123456789'' ! n]
      else str_nat (n div 10) @ [''0123456789'' ! (n mod 10)])"

declare str_nat.simps [simp del]

text \<open>
  \<^verbatim>\<open>'x_' in k\<close> is the contiguous-substring test, \<^const>\<open>sublist\<close>.
  \<^verbatim>\<open>k.replace('p_', '')\<close> deletes every occurrence of \<^verbatim>\<open>p_\<close>, scanning from the left.
\<close>

fun replace_p :: "string \<Rightarrow> string" where
  "replace_p (a # b # rest) =
     (if a = CHR ''p'' \<and> b = CHR ''_'' then replace_p rest else a # replace_p (b # rest))"
| "replace_p s = s"

text \<open>\<^verbatim>\<open>os.path.join(a, b)\<close> on a POSIX system, for two components.\<close>

definition path_join :: "string \<Rightarrow> string \<Rightarrow> string" where
  "path_join a b =
     (if b \<noteq> [] \<and> hd b = CHR ''/'' then b
      else if a = [] \<or> last a = CHR ''/'' then a @ b
      else a @ ''/'' @ b)"

subsection \<open>Arrays and tables\<close>

text \<open>
  A two-dimensional \<^verbatim>\<open>ndarray\<close>: its shape and its rows. The trajectory \<^verbatim>\<open>P\<close> has
  one row per variable and one column per time index.
\<close>

record ndarray =
  shape0 :: nat
  shape1 :: nat
  cells :: "double list list"

definition wf_ndarray :: "ndarray \<Rightarrow> bool" where
  "wf_ndarray A \<longleftrightarrow>
     length (cells A) = shape0 A \<and> list_all (\<lambda>r. length r = shape1 A) (cells A)"

text \<open>
  \<^verbatim>\<open>A[idx, :]\<close> with a list of non-negative row indices (\<^verbatim>\<open>rnaIndex\<close> comes from
  \<^verbatim>\<open>range\<close>): an index outside the array raises \<^verbatim>\<open>IndexError\<close>.
\<close>

definition select_rows :: "ndarray \<Rightarrow> nat list \<Rightarrow> error + ndarray" where
  "select_rows A idx =
     (if list_all (\<lambda>i. i < shape0 A) idx
      then Inr \<lparr>shape0 = length idx, shape1 = shape1 A, cells = map (\<lambda>i. cells A ! i) idx\<rparr>
      else Inl IndexError)"

text \<open>
  \<^verbatim>\<open>A[:, idx]\<close> with a list of integer column indices: numpy counts a negative index
  from the end and raises \<^verbatim>\<open>IndexError\<close> outside \<open>[-shape1, shape1)\<close>.
\<close>

definition np_index :: "nat \<Rightarrow> int \<Rightarrow> error + nat" where
  "np_index n i =
     (if 0 \<le> i \<and> i < int n then Inr (nat i)
      else if - int n \<le> i \<and> i < 0 then Inr (nat (i + int n))
      else Inl IndexError)"

definition select_cols :: "ndarray \<Rightarrow> int list \<Rightarrow> error + ndarray" where
  "select_cols A idx =
     (case comprehension (np_index (shape1 A)) idx of
        Inl e \<Rightarrow> Inl e
      | Inr js \<Rightarrow>
          Inr \<lparr>shape0 = shape0 A, shape1 = length idx,
               cells = map (\<lambda>r. map (\<lambda>j. r ! j) js) (cells A)\<rparr>)"

text \<open>
  \<^verbatim>\<open>A.max()\<close>: the reduction raises \<^verbatim>\<open>ValueError\<close> on an array without elements and
  gives NaN when an element is NaN.
\<close>

definition amax :: "ndarray \<Rightarrow> error + double" where
  "amax A =
     (case concat (cells A) of [] \<Rightarrow> Inl ValueError | v # vs \<Rightarrow> Inr (fold max_double vs v))"

text \<open>A \<^verbatim>\<open>pandas.DataFrame\<close>: row labels, column labels and the values, row by row.\<close>

record frame =
  index :: "string list"
  columns :: "string list"
  vals :: "double list list"

text \<open>
  \<^verbatim>\<open>pd.DataFrame(A, index=..., columns=...)\<close> raises \<^verbatim>\<open>ValueError\<close> when the labels
  do not fit the shape of the data.
\<close>

definition DataFrame :: "ndarray \<Rightarrow> string list \<Rightarrow> string list \<Rightarrow> error + frame" where
  "DataFrame A idx cols =
     (if length idx = shape0 A \<and> length cols = shape1 A
      then Inr \<lparr>index = idx, columns = cols, vals = cells A\<rparr>
      else Inl ValueError)"

text \<open>\<^verbatim>\<open>df.T\<close>, \<^verbatim>\<open>df.sort_index()\<close> (rows ordered by label) and \<^verbatim>\<open>df.values.ravel()\<close>.\<close>

definition frame_T :: "frame \<Rightarrow> frame" where
  "frame_T df =
     \<lparr>index = columns df, columns = index df,
      vals = map (\<lambda>j. map (\<lambda>r. r ! j) (vals df)) [0..<length (columns df)]\<rparr>"

definition sort_index :: "frame \<Rightarrow> frame" where
  "sort_index df =
     (let rows = sort_key fst (zip (index df) (vals df))
      in df\<lparr>index := map fst rows, vals := map snd rows\<rparr>)"

definition ravel :: "frame \<Rightarrow> double list" where
  "ravel df = concat (vals df)"

subsection \<open>The file store\<close>

text \<open>
  The files written so far, latest first, under the path strings the program used. A read
  resolves a path as POSIX does, where a run of slashes counts as one.
\<close>

type_synonym fs = "(string \<times> frame) list"

fun squash :: "string \<Rightarrow> string" where
  "squash (a # b # rest) =
     (if a = CHR ''/'' \<and> b = CHR ''/'' then squash (b # rest) else a # squash (b # rest))"
| "squash s = s"

definition to_csv :: "string \<Rightarrow> frame \<Rightarrow> fs \<Rightarrow> fs" where
  "to_csv path df files = (path, df) # files"

definition read_csv :: "string \<Rightarrow> fs \<Rightarrow> error + frame" where
  "read_csv path files =
     (case map_of (map (\<lambda>(p, df). (squash p, df)) files) (squash path) of
        None \<Rightarrow> Inl (FileNotFoundError path)
      | Some df \<Rightarrow> Inr df)"

definition written :: "fs \<Rightarrow> string set" where
  "written files = fst ` set files"

subsection \<open>numpy's grid, rounding and random draws\<close>

text \<open>
  \<^verbatim>\<open>np.linspace(start, stop, num)\<close>, as numpy computes it in doubles: \<open>start\<close> and
  \<open>stop\<close> are converted, \<^verbatim>\<open>delta = stop - start\<close>, \<^verbatim>\<open>step = delta / div\<close> with
  \<^verbatim>\<open>div = num - 1\<close>, and the points are \<^verbatim>\<open>arange(0, num) * step + start\<close> (or
  \<^verbatim>\<open>arange(0, num) / div * delta + start\<close> when the step is zero), the last one set to
  \<open>stop\<close> itself. Every operation rounds.
\<close>

definition linspace :: "real \<Rightarrow> real \<Rightarrow> nat \<Rightarrow> real list" where
  "linspace start stop num =
     (let a = round_binary64 start;
          b = round_binary64 stop;
          delta = fl_sub b a;
          dv = round_binary64 (real (num - 1))
      in if num = 0 then []
         else if num = 1 then [fl_add (fl_mul 0 delta) a]
         else (let step = fl_div delta dv
               in map (\<lambda>i. let y = round_binary64 (real i)
                            in fl_add (if step = 0 then fl_mul (fl_div y dv) delta
                                       else fl_mul y step) a)
                      [0..<num - 1] @ [b]))"

text \<open>
  \<^verbatim>\<open>np.random.randint(low, high)\<close> draws from the half-open range \<open>[low, high)\<close> and
  raises \<^verbatim>\<open>ValueError\<close> when the range is empty. The generator is a stream of raw
  numbers; \<open>raw\<close> is the one this draw consumes.
\<close>

definition randint :: "nat \<Rightarrow> int \<Rightarrow> int \<Rightarrow> error + int" where
  "randint raw low high =
     (if low < high then Inr (low + int (raw mod nat (high - low))) else Inl ValueError)"

subsection \<open>Collaborators outside run\_experiment.py\<close>

text \<open>
  \<^verbatim>\<open>BoolODE/simulator.py\<close>, \<^verbatim>\<open>BoolODE/utils.py\<close> and scikit-learn are not part of the
  embedded file; they are parameters of the model.
  \<^item> \<open>simulate ss seed\<close>: \<^verbatim>\<open>simulator.getInitialCondition\<close> followed by
    \<^verbatim>\<open>simulator.simulateModel\<close> and the transposition \<^verbatim>\<open>P.T\<close>, for the fixed model,
    parameters and time grid of the run; it returns the trajectory or raises.
  \<^item> \<open>sampleCellFromTraj cellid P header\<close>: the helper of \<^verbatim>\<open>utils\<close>.
  \<^item> \<open>KMeans k groupedDict\<close>: \<^verbatim>\<open>DataFrame.from_dict\<close> and the fit, giving one label
    per entry or raising.
  \<^item> \<open>randint_raw cellid i\<close>: the raw number behind the \<open>i\<close>-th draw of
    \<^verbatim>\<open>np.random.randint\<close> in the job of cell \<open>cellid\<close>; \<open>choice_raw i\<close>: the one
    behind the \<open>i\<close>-th element drawn by \<^verbatim>\<open>np.random.choice\<close>.
\<close>

record collaborators =
  simulate :: "real list \<Rightarrow> int \<Rightarrow> error + ndarray"
  sampleCellFromTraj :: "nat \<Rightarrow> ndarray \<Rightarrow> string list \<Rightarrow> error + frame"
  KMeans :: "int \<Rightarrow> (string \<times> double list) list \<Rightarrow> error + nat list"
  randint_raw :: "nat \<Rightarrow> nat \<Rightarrow> nat"
  choice_raw :: "nat \<Rightarrow> nat"

subsection \<open>simulateAndSample\<close>

text \<open>
  The entries of \<^verbatim>\<open>argdict\<close> that the body of \<^verbatim>\<open>simulateAndSample\<close> itself reads;
  the others are only handed on to the simulator.
\<close>

record argdict =
  arg_genelist :: "string list"
  arg_outPrefix :: string
  arg_sampleCells :: bool
  arg_header :: "string list"
  arg_ss :: "real list"
  arg_rnaIndex :: "nat list"
  arg_x_max :: real
  arg_n_snapshots :: nat
  arg_seed :: int
  arg_cellid :: nat

text \<open>
  Lines 344-361, the retry loop: each pass adds 1000 to the seed, integrates, and takes the
  largest transcript value \<^verbatim>\<open>P[rnaIndex, :].max()\<close>; when it is below the double
  product \<^verbatim>\<open>0.1 * x_max\<close> the pass is repeated (\<open>x_max\<close> is the value of a double). The loop has no bound, so it is a partial function: \<open>None\<close> is a loop that
  never ends. It returns the accepted trajectory and \<^verbatim>\<open>tries\<close>.
\<close>

definition maxExp :: "ndarray \<Rightarrow> nat list \<Rightarrow> error + double" where
  "maxExp P rnaIndex = (case select_rows P rnaIndex of Inl e \<Rightarrow> Inl e | Inr R \<Rightarrow> amax R)"

partial_function (option) retry_loop ::
  "(int \<Rightarrow> error + ndarray) \<Rightarrow> nat list \<Rightarrow> real \<Rightarrow> int \<Rightarrow> nat \<Rightarrow> (error + ndarray \<times> nat) option"
where
  "retry_loop sim rnaIndex x_max seed tries =
     (case sim (seed + 1000) of
        Inl e \<Rightarrow> Some (Inl e)
      | Inr P \<Rightarrow>
          (case maxExp P rnaIndex of
             Inl e \<Rightarrow> Some (Inl e)
           | Inr m \<Rightarrow>
               if lt_double m (Finite (fl_mul float_0_1 x_max))
               then retry_loop sim rnaIndex x_max (seed + 1000) (tries + 1)
               else Some (Inr (P, tries + 1))))"

text \<open>Lines 367-383: the single-timepoint branch, \<^verbatim>\<open>n_snapshots == 0\<close>.\<close>

definition timePoints :: "ndarray \<Rightarrow> nat list" where
  "timePoints P = [1..<shape1 P]"

definition single_timepoint ::
  "collaborators \<Rightarrow> argdict \<Rightarrow> string \<Rightarrow> ndarray \<Rightarrow> fs \<Rightarrow> (error + frame) \<times> fs" where
  "single_timepoint env a outPrefix P files =
     (case select_rows P (arg_rnaIndex a) of
        Inl e \<Rightarrow> (Inl e, files)
      | Inr R \<Rightarrow>
          (case select_cols R (map int (timePoints P)) of
             Inl e \<Rightarrow> (Inl e, files)
           | Inr subs \<Rightarrow>
               (let colNames = map (\<lambda>t. ''E'' @ str_nat (arg_cellid a) @ ''_'' @ str_nat t)
                                   (timePoints P)
                in case DataFrame subs (arg_genelist a) colNames of
                     Inl e \<Rightarrow> (Inl e, files)
                   | Inr df \<Rightarrow>
                       if arg_sampleCells a
                       then (case sampleCellFromTraj env (arg_cellid a) P (arg_header a) of
                               Inl e \<Rightarrow> (Inl e, files)
                             | Inr sampledf \<Rightarrow>
                                 (Inr df,
                                  to_csv (outPrefix @ ''E'' @ str_nat (arg_cellid a) @ ''-cell.csv'')
                                         (frame_T sampledf) files))
                       else (Inr df, files))))"

text \<open>Lines 390-402: the snapshot branch, \<^verbatim>\<open>n_snapshots > 0\<close>.\<close>

definition snapshotIndicesLimits :: "int \<Rightarrow> nat \<Rightarrow> int list" where
  "snapshotIndicesLimits steps n = map np_round (linspace 0 (of_int steps) (n + 1))"

definition snapshotIndices :: "(nat \<Rightarrow> nat) \<Rightarrow> int list \<Rightarrow> nat \<Rightarrow> error + int list" where
  "snapshotIndices raw limits n =
     comprehension (\<lambda>i. randint (raw i) (limits ! i) (limits ! (i + 1))) [0..<n]"

definition snapshots :: "collaborators \<Rightarrow> argdict \<Rightarrow> ndarray \<Rightarrow> error + frame" where
  "snapshots env a P =
     (let n = arg_n_snapshots a;
          steps = int (shape1 P) - 1;
          limits = snapshotIndicesLimits steps n
      in case snapshotIndices (randint_raw env (arg_cellid a)) limits n of
           Inl e \<Rightarrow> Inl e
         | Inr inds \<Rightarrow>
             (let colNames = map (\<lambda>i. ''E'' @ str_nat (arg_cellid a) @ ''_t'' @ str_nat i) [0..<n]
              in case select_rows P (arg_rnaIndex a) of
                   Inl e \<Rightarrow> Inl e
                 | Inr R \<Rightarrow>
                     (case select_cols R inds of
                        Inl e \<Rightarrow> Inl e
                      | Inr subs \<Rightarrow> DataFrame subs (arg_genelist a) colNames)))"

text \<open>
  Lines 365-405: choose the branch, then save the table as \<^verbatim>\<open>E{cellid}.csv\<close> under
  \<^verbatim>\<open>os.path.join(argdict['outPrefix'], 'simulations')\<close>.
\<close>

definition sample_and_save ::
  "collaborators \<Rightarrow> argdict \<Rightarrow> ndarray \<Rightarrow> fs \<Rightarrow> (error + unit) \<times> fs" where
  "sample_and_save env a P files =
     (let outPrefix = path_join (arg_outPrefix a) ''simulations''
      in case (if arg_n_snapshots a = 0 then single_timepoint env a outPrefix P files
               else (snapshots env a P, files)) of
           (Inl e, files') \<Rightarrow> (Inl e, files')
         | (Inr df, files') \<Rightarrow>
             (Inr (), to_csv (path_join outPrefix (''E'' @ str_nat (arg_cellid a) @ ''.csv'')) df files'))"

definition simulateAndSample ::
  "collaborators \<Rightarrow> argdict \<Rightarrow> fs \<Rightarrow> ((error + unit) \<times> fs) option" where
  "simulateAndSample env a files =
     (case retry_loop (simulate env (arg_ss a)) (arg_rnaIndex a) (arg_x_max a) (arg_seed a) 0 of
        None \<Rightarrow> None
      | Some (Inl e) \<Rightarrow> Some (Inl e, files)
      | Some (Inr (P, tries)) \<Rightarrow> Some (sample_and_save env a P files))"

subsection \<open>Experiment\<close>

text \<open>
  The model object \<^verbatim>\<open>mg\<close>: \<^verbatim>\<open>mg.varmapper\<close> is a dictionary with the keys
  \<open>0, ..., n - 1\<close> (line 64 reads it at every index of \<^verbatim>\<open>range(len(...))\<close>), built
  in index order, so it is the list of variable names. \<open>ModelSpec_ics\<close> is
  \<^verbatim>\<open>mg.ModelSpec['ics']\<close> and \<open>x_max\<close> is \<^verbatim>\<open>mg.kineticParameterDefaults['x_max']\<close>.
\<close>

record model_generator =
  varmapper :: "string list"
  genelist :: "string list"
  proteinlist :: "string list"
  ModelSpec_ics :: "string \<rightharpoonup> real"
  x_max :: real

text \<open>
  The settings dictionary, with \<^verbatim>\<open>settings.get('n_snapshots', 0)\<close> already resolved.
  \<^verbatim>\<open>num_cells\<close> and \<^verbatim>\<open>n_snapshots\<close> are non-negative by the configuration contract.
\<close>

record settings =
  outprefix :: string
  sample_cells :: bool
  num_cells :: nat
  nClusters :: int
  n_snapshots :: nat

text \<open>Lines 64-68: the transcript indices, the reverse dictionary and \<^verbatim>\<open>y0\<close>.\<close>

definition rnaIndex :: "model_generator \<Rightarrow> nat list" where
  "rnaIndex mg = filter (\<lambda>i. sublist ''x_'' (varmapper mg ! i)) [0..<length (varmapper mg)]"

definition revvarmapper :: "model_generator \<Rightarrow> string \<rightharpoonup> nat" where
  "revvarmapper mg = fold (\<lambda>(i, k) m. m(k \<mapsto> i)) (enumerate 0 (varmapper mg)) Map.empty"

definition y0 :: "model_generator \<Rightarrow> error + real list" where
  "y0 mg =
     comprehension
       (\<lambda>i. case ModelSpec_ics mg (varmapper mg ! i) of
               None \<Rightarrow> Inl (KeyError (varmapper mg ! i))
             | Some v \<Rightarrow> Inr v)
       [0..<length (varmapper mg)]"

text \<open>Lines 69-79: the default base vector \<^verbatim>\<open>ss\<close>.\<close>

definition ss_defaults :: "model_generator \<Rightarrow> real list" where
  "ss_defaults mg =
     fold (\<lambda>(i, k) ss.
             if sublist ''x_'' k then ss[i := 1.0]
             else if sublist ''p_'' k
                  then (if replace_p k \<in> set (proteinlist mg) then ss[i := 20] else ss)
                  else ss)
          (enumerate 0 (varmapper mg))
          (replicate (length (varmapper mg)) 0)"

text \<open>
  Lines 81-96: the override table. \<open>None\<close> is an empty \<^verbatim>\<open>icsDF\<close>; otherwise the
  parsed \<^verbatim>\<open>Genes\<close> and \<^verbatim>\<open>Values\<close> lists of its row 0. The two inner loops run once
  for every entry of \<^verbatim>\<open>mg.varmapper\<close>.
\<close>

definition icsmap :: "string list \<Rightarrow> real list \<Rightarrow> string \<rightharpoonup> real" where
  "icsmap genes values = fold (\<lambda>(g, v) m. m(g \<mapsto> v)) (zip genes values) Map.empty"

definition set_ics ::
  "(string \<rightharpoonup> nat) \<Rightarrow> (string \<rightharpoonup> real) \<Rightarrow> string \<Rightarrow> string \<Rightarrow> real list \<Rightarrow> error + real list"
where
  "set_ics rvm im pre name ss =
     (let v = (case im name of Some v \<Rightarrow> v | None \<Rightarrow> 0.01)
      in case rvm (pre @ name) of
           None \<Rightarrow> Inl (KeyError (pre @ name))
         | Some j \<Rightarrow> Inr (ss[j := v]))"

definition override_pass ::
  "model_generator \<Rightarrow> (string \<rightharpoonup> real) \<Rightarrow> real list \<Rightarrow> error + real list" where
  "override_pass mg im ss =
     (case for_each (set_ics (revvarmapper mg) im ''p_'') (proteinlist mg) ss of
        Inl e \<Rightarrow> Inl e
      | Inr ss' \<Rightarrow> for_each (set_ics (revvarmapper mg) im ''x_'') (genelist mg) ss')"

definition build_ss ::
  "model_generator \<Rightarrow> (string list \<times> real list) option \<Rightarrow> error + real list" where
  "build_ss mg icsDF =
     (case icsDF of
        None \<Rightarrow> Inr (ss_defaults mg)
      | Some (genes, values) \<Rightarrow>
          for_each (\<lambda>k ss. override_pass mg (icsmap genes values) ss) (varmapper mg)
                   (ss_defaults mg))"

text \<open>
  Lines 137-149: with \<^verbatim>\<open>sample_cells\<close> the header is drawn and \<^verbatim>\<open>groupedDict\<close> stays
  unbound (\<open>None\<close>); otherwise \<^verbatim>\<open>groupedDict\<close> is the empty dictionary.
  \<^verbatim>\<open>np.random.choice\<close> raises \<^verbatim>\<open>ValueError\<close> on an empty population unless no
  sample is taken.
\<close>

definition make_header :: "collaborators \<Rightarrow> real list \<Rightarrow> nat \<Rightarrow> error + string list" where
  "make_header env tspan n =
     (let timeIndex = [0..<length tspan]
      in if timeIndex = [] \<and> n \<noteq> 0 then Inl ValueError
         else Inr (map (\<lambda>cellid. ''E'' @ str_nat cellid @ ''_''
                                  @ str_nat (timeIndex ! (choice_raw env cellid mod length tspan)))
                       [0..<n]))"

definition make_argdict ::
  "model_generator \<Rightarrow> settings \<Rightarrow> real list \<Rightarrow> string list \<Rightarrow> nat \<Rightarrow> argdict" where
  "make_argdict mg st ss header cellid =
     \<lparr>arg_genelist = genelist mg, arg_outPrefix = outprefix st,
      arg_sampleCells = sample_cells st, arg_header = header, arg_ss = ss,
      arg_rnaIndex = rnaIndex mg, arg_x_max = x_max mg, arg_n_snapshots = n_snapshots st,
      arg_seed = int cellid, arg_cellid = cellid\<rparr>"

text \<open>
  Lines 162-178: one job per cell identifier. The jobs write disjoint files and their results
  are collected in cell order, so the pool branch and the sequential branch are one function
  here; the first job that raises ends the run. A job that never returns gives \<open>None\<close>.
\<close>

fun run_cells ::
  "(nat \<Rightarrow> fs \<Rightarrow> ((error + unit) \<times> fs) option) \<Rightarrow> nat list \<Rightarrow> fs \<Rightarrow> ((error + unit) \<times> fs) option"
where
  "run_cells job [] files = Some (Inr (), files)"
| "run_cells job (cellid # rest) files =
     (case job cellid files of
        None \<Rightarrow> None
      | Some (Inl e, files') \<Rightarrow> Some (Inl e, files')
      | Some (Inr u, files') \<Rightarrow> run_cells job rest files')"

text \<open>Lines 185-195: the body of the aggregation loop. A dictionary keeps insertion order.\<close>

definition dict_set :: "'k \<Rightarrow> 'v \<Rightarrow> ('k \<times> 'v) list \<Rightarrow> ('k \<times> 'v) list" where
  "dict_set k v d =
     (if k \<in> fst ` set d then map (\<lambda>(k', v'). if k' = k then (k', v) else (k', v')) d
      else d @ [(k, v)])"

definition aggregate_cell ::
  "settings \<Rightarrow> fs \<Rightarrow> nat \<Rightarrow> (string \<times> double list) list option \<times> frame list
     \<Rightarrow> error + (string \<times> double list) list option \<times> frame list" where
  "aggregate_cell st files cellid acc =
     (case acc of (groupedDict, frames) \<Rightarrow>
        (case read_csv (outprefix st @ ''/simulations/E'' @ str_nat cellid @ ''.csv'') files of
           Inl e \<Rightarrow> Inl e
         | Inr df0 \<Rightarrow>
             (let df = sort_index df0
              in if n_snapshots st = 0
                 then (case groupedDict of
                         None \<Rightarrow> Inl (UnboundLocalError ''groupedDict'')
                       | Some g \<Rightarrow>
                           Inr (Some (dict_set (''E'' @ str_nat cellid) (ravel df) g),
                                frames @ [frame_T df]))
                 else Inr (groupedDict, frames @ [frame_T df]))))"

text \<open>Lines 205-219: the clustering step and \<^verbatim>\<open>ClusterIds.csv\<close>.\<close>

definition cluster ::
  "collaborators \<Rightarrow> settings \<Rightarrow> (string \<times> double list) list option \<Rightarrow> fs \<Rightarrow> (error + unit) \<times> fs"
where
  "cluster env st groupedDict files =
     (if 1 < nClusters st \<and> n_snapshots st = 0
      then (case groupedDict of
              None \<Rightarrow> (Inl (UnboundLocalError ''groupedDict''), files)
            | Some g \<Rightarrow>
                (case KMeans env (nClusters st) g of
                   Inl e \<Rightarrow> (Inl e, files)
                 | Inr clusterLabels \<Rightarrow>
                     (case DataFrame \<lparr>shape0 = length clusterLabels, shape1 = 1,
                                      cells = map (\<lambda>l. [Finite (real l)]) clusterLabels\<rparr>
                                     (map fst g) [''cl''] of
                        Inl e \<Rightarrow> (Inl e, files)
                      | Inr clusterDF \<Rightarrow>
                          (Inr (), to_csv (outprefix st @ ''/ClusterIds.csv'') clusterDF files))))
      else (Inr (), files))"

text \<open>
  \<^verbatim>\<open>Experiment\<close>, phase by phase. Lines 59-149, before any job is started: \<^verbatim>\<open>y0\<close>,
  \<^verbatim>\<open>ss\<close>, the index of the result frame, the header or the empty \<^verbatim>\<open>groupedDict\<close>.
  Line 101 reads the name \<^verbatim>\<open>proteinlist\<close>, which is bound neither in the function nor
  in the module.
\<close>

definition experiment_setup ::
  "collaborators \<Rightarrow> model_generator \<Rightarrow> real list \<Rightarrow> settings
     \<Rightarrow> (string list \<times> real list) option
     \<Rightarrow> error + real list \<times> string list \<times> (string \<times> double list) list option" where
  "experiment_setup env mg tspan st icsDF =
     (case y0 mg of
        Inl e \<Rightarrow> Inl e
      | Inr y \<Rightarrow>
          (case build_ss mg icsDF of
             Inl e \<Rightarrow> Inl e
           | Inr ss \<Rightarrow>
               if proteinlist mg \<noteq> [] then Inl (NameError ''proteinlist'')
               else if sample_cells st
                    then (case make_header env tspan (num_cells st) of
                            Inl e \<Rightarrow> Inl e
                          | Inr header \<Rightarrow> Inr (ss, header, None))
                    else Inr (ss, [], Some [])))"

text \<open>
  Lines 185-219, after the jobs: the aggregation loop, \<^verbatim>\<open>pd.concat\<close> (which raises
  \<^verbatim>\<open>ValueError\<close> on an empty list) and the clustering step. The value returned is the
  list \<^verbatim>\<open>frames\<close> handed to \<^verbatim>\<open>pd.concat\<close>.
\<close>

definition experiment_aggregate ::
  "collaborators \<Rightarrow> settings \<Rightarrow> (string \<times> double list) list option \<Rightarrow> fs
     \<Rightarrow> (error + frame list) \<times> fs" where
  "experiment_aggregate env st groupedDict files1 =
     (case for_each (aggregate_cell st files1) [0..<num_cells st] (groupedDict, []) of
        Inl e \<Rightarrow> (Inl e, files1)
      | Inr (groupedDict', frames) \<Rightarrow>
          if frames = [] then (Inl ValueError, files1)
          else (case cluster env st groupedDict' files1 of
                  (Inl e, files2) \<Rightarrow> (Inl e, files2)
                | (Inr u, files2) \<Rightarrow> (Inr frames, files2)))"

text \<open>
  The whole function: the outcome (an exception or the frames) and the files at that
  moment; \<open>None\<close> when a job never returns.
\<close>

definition Experiment ::
  "collaborators \<Rightarrow> model_generator \<Rightarrow> real list \<Rightarrow> settings
     \<Rightarrow> (string list \<times> real list) option \<Rightarrow> fs \<Rightarrow> ((error + frame list) \<times> fs) option" where
  "Experiment env mg tspan st icsDF files =
     (case experiment_setup env mg tspan st icsDF of
        Inl e \<Rightarrow> Some (Inl e, files)
      | Inr (ss, header, groupedDict) \<Rightarrow>
          (case run_cells (\<lambda>cellid. simulateAndSample env (make_argdict mg st ss header cellid))
                          [0..<num_cells st] files of
             None \<Rightarrow> None
           | Some (Inl e, files1) \<Rightarrow> Some (Inl e, files1)
           | Some (Inr u, files1) \<Rightarrow> Some (experiment_aggregate env st groupedDict files1)))"

subsection \<open>Predicates used in the statements\<close>

text \<open>
  The test of the retry loop on the attempt run with seed \<open>s\<close>: \<open>degenerate\<close> when the
  loop sets \<^verbatim>\<open>retry = True\<close> again, \<open>accepted\<close> when it leaves \<^verbatim>\<open>retry = False\<close>.
\<close>

definition degenerate :: "(int \<Rightarrow> error + ndarray) \<Rightarrow> nat list \<Rightarrow> real \<Rightarrow> int \<Rightarrow> bool" where
  "degenerate sim idx xm s =
     (case sim s of
        Inl e \<Rightarrow> False
      | Inr P \<Rightarrow>
          (case maxExp P idx of
             Inl e \<Rightarrow> False
           | Inr m \<Rightarrow> lt_double m (Finite (fl_mul float_0_1 xm))))"

definition accepted :: "(int \<Rightarrow> error + ndarray) \<Rightarrow> nat list \<Rightarrow> real \<Rightarrow> int \<Rightarrow> bool" where
  "accepted sim idx xm s =
     (case sim s of
        Inl e \<Rightarrow> False
      | Inr P \<Rightarrow>
          (case maxExp P idx of
             Inl e \<Rightarrow> False
           | Inr m \<Rightarrow> \<not> lt_double m (Finite (fl_mul float_0_1 xm))))"

text \<open>
  Window \<open>i\<close> of the snapshot branch: the values that
  \<^verbatim>\<open>np.random.randint(limits[i], limits[i+1])\<close> can return.
\<close>

definition window :: "int list \<Rightarrow> nat \<Rightarrow> int set" where
  "window limits i = {limits ! i ..< limits ! (i + 1)}"

text \<open>
  What the model generator guarantees about \<^verbatim>\<open>mg\<close>: every variable has an initial
  condition in \<^verbatim>\<open>ModelSpec['ics']\<close>, every gene has its transcript variable and every
  protein-only species its protein variable.
\<close>

definition wf_model :: "model_generator \<Rightarrow> bool" where
  "wf_model mg \<longleftrightarrow>
     list_all (\<lambda>k. ModelSpec_ics mg k \<noteq> None) (varmapper mg)
     \<and> list_all (\<lambda>p. ''p_'' @ p \<in> set (varmapper mg)) (proteinlist mg)
     \<and> list_all (\<lambda>g. ''x_'' @ g \<in> set (varmapper mg)) (genelist mg)"

text \<open>
  The two path strings a job for cell \<open>c\<close> writes to (lines 405 and 383), and the path
  of the cluster file (line 217).
\<close>

definition cell_csv :: "string \<Rightarrow> nat \<Rightarrow> string" where
  "cell_csv outPrefix c =
     path_join (path_join outPrefix ''simulations'') (''E'' @ str_nat c @ ''.csv'')"

definition sample_csv :: "string \<Rightarrow> nat \<Rightarrow> string" where
  "sample_csv outPrefix c = path_join outPrefix ''simulations'' @ ''E'' @ str_nat c @ ''-cell.csv''"

definition cluster_csv :: "string \<Rightarrow> string" where
  "cluster_csv outPrefix = outPrefix @ ''/ClusterIds.csv''"

subsection \<open>A small concrete run\<close>

text \<open>
  One gene \<open>g\<close> with its transcript \<open>x_g\<close> and protein \<open>p_g\<close>, four time points. The
  simulator gives a collapsed trajectory for seeds below 3000 and a live one from 3000 on.
\<close>

definition example_low :: ndarray where
  "example_low =
     \<lparr>shape0 = 2, shape1 = 4,
      cells = map (map Finite) [[0.125, 0.125, 0.125, 0.125], [5, 5, 5, 5]]\<rparr>"

definition example_high :: ndarray where
  "example_high =
     \<lparr>shape0 = 2, shape1 = 4,
      cells = map (map Finite) [[1, 0.5, 1.5, 0.25], [20, 19, 18, 17]]\<rparr>"

text \<open>
  Two more trajectories of one transcript: the first stays at \<open>0.27999999999999997\<close>,
  the double \<open>5044031582654955 / 2^54\<close>; the second holds a NaN.
\<close>

definition example_edge :: ndarray where
  "example_edge =
     \<lparr>shape0 = 1, shape1 = 2,
      cells = [[Finite (5044031582654955 / 2 ^ 54), Finite (5044031582654955 / 2 ^ 54)]]\<rparr>"

definition example_nan :: ndarray where
  "example_nan = \<lparr>shape0 = 1, shape1 = 2, cells = [[Finite 1, NaN]]\<rparr>"

definition example_sim :: "int \<Rightarrow> error + ndarray" where
  "example_sim seed = (if seed < 3000 then Inr example_low else Inr example_high)"

text \<open>
  Collaborators for the run: the sampling helper returns one fixed observation, the
  clustering gives every cell the label 0, and all raw random numbers are fixed.
\<close>

definition example_env :: collaborators where
  "example_env =
     \<lparr>simulate = (\<lambda>ss seed. example_sim seed),
      sampleCellFromTraj = (\<lambda>cellid P header. Inr \<lparr>index = [''g''], columns = [''E0_2''], vals = [[Finite 1.5]]\<rparr>),
      KMeans = (\<lambda>k g. Inr (map (\<lambda>e. 0) g)),
      randint_raw = (\<lambda>cellid i. 0),
      choice_raw = (\<lambda>i. 2)\<rparr>"

definition example_args :: "bool \<Rightarrow> nat \<Rightarrow> argdict" where
  "example_args sampleCells n =
     \<lparr>arg_genelist = [''g''], arg_outPrefix = ''out'', arg_sampleCells = sampleCells,
      arg_header = [''E0_2''], arg_ss = [1, 0], arg_rnaIndex = [0], arg_x_max = 2,
      arg_n_snapshots = n, arg_seed = 0, arg_cellid = 0\<rparr>"

text \<open>
  The value that lines 72-79 assign to the variable named \<open>k\<close>, if any: the loop as a
  table, used to state what \<open>ss_defaults\<close> holds.
\<close>

definition default_of :: "string list \<Rightarrow> string \<Rightarrow> real option" where
  "default_of pl k =
     (if sublist ''x_'' k then Some 1
      else if sublist ''p_'' k \<and> replace_p k \<in> set pl then Some 20 else None)"

text \<open>
  The model of the run, and a second one with a protein-only species \<open>q\<close>.
\<close>

definition example_mg :: model_generator where
  "example_mg =
     \<lparr>varmapper = [''x_g'', ''p_g''], genelist = [''g''], proteinlist = [],
      ModelSpec_ics = [''x_g'' \<mapsto> 1, ''p_g'' \<mapsto> 20], x_max = 2\<rparr>"

definition example_mg_protein :: model_generator where
  "example_mg_protein =
     \<lparr>varmapper = [''x_g'', ''p_g'', ''p_q''], genelist = [''g''], proteinlist = [''q''],
      ModelSpec_ics = [''x_g'' \<mapsto> 1, ''p_g'' \<mapsto> 20, ''p_q'' \<mapsto> 20], x_max = 2\<rparr>"

definition example_settings :: "bool \<Rightarrow> nat \<Rightarrow> int \<Rightarrow> settings" where
  "example_settings sample n k =
     \<lparr>outprefix = ''out'', sample_cells = sample, num_cells = 1, nClusters = k, n_snapshots = n\<rparr>"

text \<open>
  The same collaborators with a simulator whose integration fails: under
  \<^verbatim>\<open>np.seterr(all='raise')\<close> (line 24) a numeric overflow is an exception.
\<close>

definition example_env_unstable :: collaborators where
  "example_env_unstable = example_env\<lparr>simulate := (\<lambda>ss seed. Inl FloatingPointError)\<rparr>"

section \<open>Verification\<close>

subsection \<open>Rounding to a double\<close>

lemma np_round_of_int: "np_round (of_int k) = k"
  by (simp add: np_round_def)

lemma np_round_bounds: "x - 1/2 \<le> of_int (np_round x)" "of_int (np_round x) \<le> x + 1/2"
  unfolding np_round_def Let_def
  by (auto; linarith)+

lemma np_round_mono: "x \<le> y \<Longrightarrow> np_round x \<le> np_round y"
proof -
  assume xy: "x \<le> y"
  have fg: "\<lfloor>x\<rfloor> \<le> \<lfloor>y\<rfloor>" using xy by (rule floor_mono)
  show ?thesis
  proof (cases "\<lfloor>x\<rfloor> = \<lfloor>y\<rfloor>")
    case True
    then show ?thesis using xy unfolding np_round_def Let_def by auto
  next
    case False
    then have lt: "\<lfloor>x\<rfloor> + 1 \<le> \<lfloor>y\<rfloor>" using fg by simp
    have a: "np_round x \<le> \<lfloor>x\<rfloor> + 1" unfolding np_round_def Let_def by auto
    have b: "\<lfloor>y\<rfloor> \<le> np_round y" unfolding np_round_def Let_def by auto
    show ?thesis using a b lt by linarith
  qed
qed

lemma pow2_shift: "2 powr (a - 52) * 2 ^ n = 2 powr (a - 52 + real n)"
proof -
  have "(2::real) ^ n = 2 powr (real n)" by (simp only: powr_realpow zero_less_numeral)
  then show ?thesis by (simp only: powr_add)
qed

lemma ulp_pos: "0 < ulp x"
  by (simp add: ulp_def)

lemma binade_eq:
  assumes "- 1022 \<le> e" and "2 powr (of_int e) \<le> \<bar>x\<bar>" and "\<bar>x\<bar> < 2 powr (of_int e + 1)"
  shows "binade x = e"
proof -
  have pos: "0 < \<bar>x\<bar>" using assms(2) by (smt (verit) powr_gt_zero)
  have "\<lfloor>log 2 \<bar>x\<bar>\<rfloor> = e"
    using floor_log_eq_powr_iff[of "\<bar>x\<bar>" 2 e] pos assms by simp
  then show ?thesis using assms(1) by (simp add: binade_def)
qed

lemma round_binary64_eval:
  assumes "- 1022 \<le> e" and "2 powr (of_int e) \<le> \<bar>x\<bar>" and "\<bar>x\<bar> < 2 powr (of_int e + 1)"
  shows "round_binary64 x = of_int (np_round (x / 2 powr (of_int e - 52))) * 2 powr (of_int e - 52)"
proof -
  have "x \<noteq> 0" using assms(2) by (smt (verit) powr_gt_zero)
  then show ?thesis by (simp add: round_binary64_def ulp_def binade_eq[OF assms])
qed

lemma round_binary64_nonneg: "0 \<le> x \<Longrightarrow> 0 \<le> round_binary64 x"
proof -
  assume x: "0 \<le> x"
  have "0 \<le> x / ulp x" using x ulp_pos[of x] by simp
  then have "np_round 0 \<le> np_round (x / ulp x)" by (rule np_round_mono)
  then have "0 \<le> np_round (x / ulp x)" using np_round_of_int[of 0] by simp
  then show ?thesis using ulp_pos[of x] by (simp add: round_binary64_def)
qed

lemma binade_mono: "0 < x \<Longrightarrow> x \<le> y \<Longrightarrow> binade x \<le> binade y"
proof -
  assume x: "0 < x" and xy: "x \<le> y"
  have "log 2 \<bar>x\<bar> \<le> log 2 \<bar>y\<bar>" using x xy by simp
  then have "\<lfloor>log 2 \<bar>x\<bar>\<rfloor> \<le> \<lfloor>log 2 \<bar>y\<bar>\<rfloor>" by (rule floor_mono)
  then show ?thesis unfolding binade_def by linarith
qed

lemma binade_upper: "0 < x \<Longrightarrow> x < 2 powr (of_int (binade x) + 1)"
proof -
  assume x: "0 < x"
  have "x < 2 powr (of_int \<lfloor>log 2 x\<rfloor> + 1)"
    using floor_log_eq_powr_iff[of x 2 "\<lfloor>log 2 x\<rfloor>"] x by simp
  also have "\<dots> \<le> 2 powr (of_int (binade x) + 1)"
    using x unfolding binade_def by (intro powr_mono) auto
  finally show ?thesis .
qed

lemma binade_lower: "0 < x \<Longrightarrow> - 1022 < binade x \<Longrightarrow> 2 powr (of_int (binade x)) \<le> x"
proof -
  assume x: "0 < x" and b: "- 1022 < binade x"
  then have "binade x = \<lfloor>log 2 x\<rfloor>" unfolding binade_def by (simp add: max_def split: if_splits)
  then show ?thesis using floor_log_eq_powr_iff[of x 2 "\<lfloor>log 2 x\<rfloor>"] x by simp
qed

lemma round_binary64_upper: "0 < x \<Longrightarrow> round_binary64 x \<le> 2 powr (of_int (binade x) + 1)"
proof -
  assume x: "0 < x"
  let ?u = "ulp x"
  have u: "?u * 2 ^ 53 = 2 powr (of_int (binade x) + 1)"
    unfolding ulp_def using pow2_shift[of "of_int (binade x)" 53] by (simp add: add.commute)
  have "x / ?u \<le> 2 ^ 53"
    using binade_upper[OF x] u ulp_pos[of x] by (simp add: field_simps)
  then have "np_round (x / ?u) \<le> np_round (of_int (2 ^ 53))"
    by (intro np_round_mono) simp
  then have "np_round (x / ?u) \<le> 2 ^ 53" by (simp only: np_round_of_int)
  then have "real_of_int (np_round (x / ?u)) \<le> 2 ^ 53" by (metis of_int_le_iff of_int_numeral of_int_power)
  then have "real_of_int (np_round (x / ?u)) * ?u \<le> 2 ^ 53 * ?u"
    using ulp_pos[of x] by (simp add: mult_right_mono)
  then show ?thesis using x u by (simp add: round_binary64_def mult.commute)
qed

lemma round_binary64_lower:
  "0 < x \<Longrightarrow> - 1022 < binade x \<Longrightarrow> 2 powr (of_int (binade x)) \<le> round_binary64 x"
proof -
  assume x: "0 < x" and b: "- 1022 < binade x"
  let ?u = "ulp x"
  have u: "?u * 2 ^ 52 = 2 powr (of_int (binade x))"
    unfolding ulp_def using pow2_shift[of "of_int (binade x)" 52] by simp
  have "2 ^ 52 \<le> x / ?u"
    using binade_lower[OF x b] u ulp_pos[of x] by (simp add: field_simps)
  then have "np_round (of_int (2 ^ 52)) \<le> np_round (x / ?u)"
    by (intro np_round_mono) simp
  then have "2 ^ 52 \<le> np_round (x / ?u)" by (simp only: np_round_of_int)
  then have "2 ^ 52 \<le> real_of_int (np_round (x / ?u))" by (metis of_int_le_iff of_int_numeral of_int_power)
  then have "2 ^ 52 * ?u \<le> real_of_int (np_round (x / ?u)) * ?u"
    using ulp_pos[of x] by (simp add: mult_right_mono)
  then show ?thesis using x u by (simp add: round_binary64_def mult.commute)
qed

lemma round_binary64_mono:
  assumes "0 \<le> x" and "x \<le> y"
  shows "round_binary64 x \<le> round_binary64 y"
proof (cases "x = 0")
  case True
  then show ?thesis using round_binary64_nonneg[of y] assms by (simp add: round_binary64_def)
next
  case False
  then have x: "0 < x" and y: "0 < y" using assms by simp_all
  have le: "binade x \<le> binade y" by (rule binade_mono[OF x assms(2)])
  show ?thesis
  proof (cases "binade x = binade y")
    case True
    then have u: "ulp x = ulp y" by (simp add: ulp_def)
    have "x / ulp y \<le> y / ulp y" using assms(2) ulp_pos[of y] by (simp add: divide_right_mono)
    then have "np_round (x / ulp y) \<le> np_round (y / ulp y)" by (rule np_round_mono)
    then have "real_of_int (np_round (x / ulp y)) * ulp y \<le> real_of_int (np_round (y / ulp y)) * ulp y"
      using ulp_pos[of y] by (simp add: mult_right_mono)
    then show ?thesis using x y u by (simp add: round_binary64_def)
  next
    case False
    then have lt: "binade x + 1 \<le> binade y" using le by simp
    have b: "- 1022 < binade y" using lt unfolding binade_def by linarith
    have "round_binary64 x \<le> 2 powr (of_int (binade x) + 1)" by (rule round_binary64_upper[OF x])
    also have "\<dots> \<le> 2 powr (of_int (binade y))"
    proof -
      have "real_of_int (binade x + 1) \<le> real_of_int (binade y)"
        using lt by (simp only: of_int_le_iff)
      then show ?thesis by (intro powr_mono) simp_all
    qed
    also have "\<dots> \<le> round_binary64 y" by (rule round_binary64_lower[OF y b])
    finally show ?thesis .
  qed
qed

lemma round_binary64_fixed:
  assumes "x = of_int m * ulp x"
  shows "round_binary64 x = x"
proof (cases "x = 0")
  case True
  then show ?thesis by (simp add: round_binary64_def)
next
  case False
  have "x / ulp x = of_int m" using assms ulp_pos[of x] by (simp add: field_simps)
  then have "np_round (x / ulp x) = m" by (simp only: np_round_of_int)
  then show ?thesis using assms False by (simp add: round_binary64_def)
qed

lemma round_binary64_of_nat:
  assumes "k \<le> 2 ^ 53"
  shows "round_binary64 (real k) = real k"
proof (cases "k = 0")
  case True
  then show ?thesis by (simp add: round_binary64_def)
next
  case False
  then have k: "1 \<le> real k" by simp
  let ?b = "binade (real k)"
  have b0: "0 \<le> ?b"
  proof -
    have "0 \<le> log 2 (real k)" using k by simp
    then have "0 \<le> \<lfloor>log 2 \<bar>real k\<bar>\<rfloor>" by simp
    then show ?thesis unfolding binade_def by linarith
  qed
  have bl: "2 powr (of_int ?b) \<le> real k"
    using binade_lower[of "real k"] k b0 by simp
  have "real k \<le> 2 ^ 53" using assms by (metis of_nat_le_iff of_nat_numeral of_nat_power)
  have b53: "?b \<le> 53"
  proof (rule ccontr)
    assume "\<not> ?b \<le> 53"
    then have "real_of_int 54 \<le> real_of_int ?b" by simp
    then have "(2::real) powr (real_of_int 54) \<le> 2 powr (real_of_int ?b)"
      by (intro powr_mono) simp_all
    then have "(2::real) ^ 54 \<le> real k" using bl by simp
    then show False using \<open>real k \<le> 2 ^ 53\<close> by simp
  qed
  show ?thesis
  proof (cases "?b = 53")
    case True
    have "2 ^ 53 \<le> real k" using bl True by simp
    then have e: "real k = 2 ^ 53" using \<open>real k \<le> 2 ^ 53\<close> by simp
    have "ulp (real k) = 2" unfolding ulp_def True by simp
    then have "real k = of_int (2 ^ 52) * ulp (real k)" using e by simp
    then show ?thesis by (rule round_binary64_fixed)
  next
    case False
    then have le: "?b \<le> 52" using b53 by simp
    have "ulp (real k) * 2 ^ nat (52 - ?b) = 1"
    proof -
      have "ulp (real k) * 2 ^ nat (52 - ?b) = 2 powr (of_int ?b - 52 + real (nat (52 - ?b)))"
        unfolding ulp_def by (rule pow2_shift)
      also have "of_int ?b - 52 + real (nat (52 - ?b)) = 0" using le by simp
      finally show ?thesis by simp
    qed
    then have "real k = of_int (int k * 2 ^ nat (52 - ?b)) * ulp (real k)"
      by (simp add: mult.assoc mult.commute)
    then show ?thesis by (rule round_binary64_fixed)
  qed
qed

lemma round_binary64_error: "\<bar>round_binary64 x - x\<bar> \<le> ulp x / 2"
proof (cases "x = 0")
  case True
  then show ?thesis using ulp_pos[of x] by (simp add: round_binary64_def)
next
  case False
  let ?z = "x / ulp x"
  have "\<bar>of_int (np_round ?z) - ?z\<bar> \<le> 1 / 2"
    using np_round_bounds[of ?z] by linarith
  then have "\<bar>of_int (np_round ?z) - ?z\<bar> * ulp x \<le> 1 / 2 * ulp x"
    using ulp_pos[of x] by (simp add: mult_right_mono)
  moreover have "\<bar>of_int (np_round ?z) - ?z\<bar> * ulp x = \<bar>of_int (np_round ?z) * ulp x - x\<bar>"
  proof -
    have "\<bar>of_int (np_round ?z) - ?z\<bar> * ulp x = \<bar>(of_int (np_round ?z) - ?z) * ulp x\<bar>"
      using ulp_pos[of x] by (simp add: abs_mult)
    also have "(of_int (np_round ?z) - ?z) * ulp x = of_int (np_round ?z) * ulp x - x"
      using ulp_pos[of x] by (simp add: algebra_simps)
    finally show ?thesis .
  qed
  ultimately show ?thesis using False by (simp add: round_binary64_def)
qed

lemma round_binary64_relative:
  assumes "1 \<le> x"
  shows "round_binary64 x \<le> x * (1 + 1 / 2 ^ 53)"
proof -
  have x: "0 < x" using assms by simp
  have "0 \<le> log 2 x" using assms by simp
  then have "0 \<le> \<lfloor>log 2 \<bar>x\<bar>\<rfloor>" using x by simp
  then have b: "- 1022 < binade x" unfolding binade_def by linarith
  have "ulp x * 2 ^ 52 = 2 powr (of_int (binade x))"
    unfolding ulp_def using pow2_shift[of "of_int (binade x)" 52] by simp
  then have "ulp x * 2 ^ 52 \<le> x" using binade_lower[OF x b] by simp
  then have "ulp x / 2 \<le> x / 2 ^ 53" by (simp add: field_simps)
  moreover have "round_binary64 x \<le> x + ulp x / 2"
    using round_binary64_error[of x] by linarith
  ultimately show ?thesis by (simp add: algebra_simps)
qed

lemma round_binary64_scaled:
  assumes "p \<le> 1074" and "2 ^ 52 \<le> \<bar>x\<bar> * 2 ^ p" and "\<bar>x\<bar> * 2 ^ p < 2 ^ 53"
  shows "round_binary64 x = of_int (np_round (x * 2 ^ p)) / 2 ^ p"
proof -
  let ?e = "52 - int p"
  have pw: "(2::real) powr (real_of_int ?e - 52) * 2 ^ p = 1"
    using pow2_shift[of "real_of_int ?e" p] by simp
  then have inv: "2 powr (real_of_int ?e - 52) = 1 / 2 ^ p" by (simp add: field_simps)
  have e: "- 1022 \<le> ?e" using assms(1) by simp
  have lo: "2 powr (real_of_int ?e) \<le> \<bar>x\<bar>"
  proof -
    have "(2::real) powr (real_of_int ?e) * 2 ^ p = 2 ^ 52"
      using pow2_shift[of "real_of_int ?e + 52" p] by simp
    then have "2 powr (real_of_int ?e) * 2 ^ p \<le> \<bar>x\<bar> * 2 ^ p" using assms(2) by simp
    then show ?thesis by (rule mult_right_le_imp_le) simp
  qed
  have hi: "\<bar>x\<bar> < 2 powr (real_of_int ?e + 1)"
  proof -
    have "(2::real) powr (real_of_int ?e + 1) * 2 ^ p = 2 ^ 53"
      using pow2_shift[of "real_of_int ?e + 53" p] by simp
    then have "\<bar>x\<bar> * 2 ^ p < 2 powr (real_of_int ?e + 1) * 2 ^ p" using assms(3) by simp
    then show ?thesis by (rule mult_right_less_imp_less) simp
  qed
  have inv': "(2::real) powr (- real p) = 1 / 2 ^ p"
    by (simp add: powr_minus powr_realpow inverse_eq_divide)
  show ?thesis using round_binary64_eval[OF e lo hi] by (simp add: inv')
qed

lemma round_binary64_zero: "round_binary64 0 = 0"
  by (simp add: round_binary64_def)

lemma round_binary64_one: "round_binary64 1 = 1"
  using round_binary64_of_nat[of 1] by simp

lemma round_binary64_numeral:
  "numeral w \<le> (2::nat) ^ 53 \<Longrightarrow> round_binary64 (numeral w) = numeral w"
  using round_binary64_of_nat[of "numeral w"] by simp

lemma round_binary64_of_int:
  assumes "0 \<le> k" and "k \<le> 2 ^ 53"
  shows "round_binary64 (of_int k) = of_int k"
proof -
  have "nat k \<le> 2 ^ 53" using assms by (simp add: nat_le_iff)
  then have "round_binary64 (real (nat k)) = real (nat k)" by (rule round_binary64_of_nat)
  then show ?thesis using assms(1) by simp
qed

lemma round_binary64_nonpos: "x \<le> 0 \<Longrightarrow> round_binary64 x \<le> 0"
proof -
  assume x: "x \<le> 0"
  have "x / ulp x \<le> 0" using x ulp_pos[of x] by (simp add: divide_le_0_iff)
  then have "np_round (x / ulp x) \<le> np_round 0" by (rule np_round_mono)
  then have "np_round (x / ulp x) \<le> 0" using np_round_of_int[of 0] by simp
  then have "real_of_int (np_round (x / ulp x)) * ulp x \<le> 0"
    using ulp_pos[of x] by (simp add: mult_le_0_iff)
  then show ?thesis by (simp add: round_binary64_def)
qed

lemma round_binary64_relative_lower:
  assumes "1 \<le> x"
  shows "x * (1 - 1 / 2 ^ 53) \<le> round_binary64 x"
proof -
  have x: "0 < x" using assms by simp
  have "0 \<le> log 2 x" using assms by simp
  then have "0 \<le> \<lfloor>log 2 \<bar>x\<bar>\<rfloor>" using x by simp
  then have b: "- 1022 < binade x" unfolding binade_def by linarith
  have "ulp x * 2 ^ 52 = 2 powr (of_int (binade x))"
    unfolding ulp_def using pow2_shift[of "of_int (binade x)" 52] by simp
  then have "ulp x * 2 ^ 52 \<le> x" using binade_lower[OF x b] by simp
  then have "ulp x / 2 \<le> x / 2 ^ 53" by (simp add: field_simps)
  moreover have "x - ulp x / 2 \<le> round_binary64 x"
    using round_binary64_error[of x] by linarith
  ultimately show ?thesis by (simp add: algebra_simps)
qed

lemma round_binary64_ge_1: "1 \<le> x \<Longrightarrow> 1 \<le> round_binary64 x"
  using round_binary64_mono[of 1 x] by (simp add: round_binary64_one)

lemma round_twice_upper:
  assumes "1 \<le> x"
  shows "round_binary64 (round_binary64 x) \<le> x * (1 + 3 / 2 ^ 53)"
proof -
  define e :: real where "e = 1 / 2 ^ 53"
  have e: "0 < e" "e \<le> 1" by (simp_all add: e_def)
  have r1: "1 \<le> round_binary64 x" by (rule round_binary64_ge_1[OF assms])
  have a: "round_binary64 x \<le> x * (1 + e)"
    unfolding e_def by (rule round_binary64_relative[OF assms])
  have "round_binary64 (round_binary64 x) \<le> round_binary64 x * (1 + e)"
    unfolding e_def by (rule round_binary64_relative[OF r1])
  also have "\<dots> \<le> (x * (1 + e)) * (1 + e)"
    using a e by (intro mult_right_mono) simp_all
  also have "\<dots> = x * (1 + 2 * e + e * e)" by (simp add: algebra_simps)
  also have "\<dots> \<le> x * (1 + 3 * e)"
  proof -
    have "e * e \<le> 1 * e" using e by (intro mult_right_mono) simp_all
    then have "1 + 2 * e + e * e \<le> 1 + 3 * e" by simp
    then show ?thesis using assms by (intro mult_left_mono) simp_all
  qed
  finally show ?thesis by (simp add: e_def)
qed

lemma round_twice_lower:
  assumes "1 \<le> x"
  shows "x * (1 - 2 / 2 ^ 53) \<le> round_binary64 (round_binary64 x)"
proof -
  define e :: real where "e = 1 / 2 ^ 53"
  have e: "0 < e" "e \<le> 1" by (simp_all add: e_def)
  have r1: "1 \<le> round_binary64 x" by (rule round_binary64_ge_1[OF assms])
  have a: "x * (1 - e) \<le> round_binary64 x"
    unfolding e_def by (rule round_binary64_relative_lower[OF assms])
  have "x * (1 - 2 * e) \<le> x * (1 - 2 * e + e * e)"
    using assms e by (intro mult_left_mono) simp_all
  also have "\<dots> = (x * (1 - e)) * (1 - e)" by (simp add: algebra_simps)
  also have "\<dots> \<le> round_binary64 x * (1 - e)"
    using a e by (intro mult_right_mono) simp_all
  also have "\<dots> \<le> round_binary64 (round_binary64 x)"
    unfolding e_def by (rule round_binary64_relative_lower[OF r1])
  finally show ?thesis by (simp add: e_def)
qed

text \<open>
  The constants of the examples: \<open>float_0_1\<close> is the double nearest to one tenth, the
  double written \<^verbatim>\<open>2.8\<close> is \<open>3152519739159347 / 2^50\<close>, and the double products
  \<^verbatim>\<open>0.1 * 2\<close> and \<^verbatim>\<open>0.1 * 2.8\<close>. The second product, \<open>0.27999999999999997\<close>, lies
  below the exact product of its factors.
\<close>

lemma float_0_1_nearest: "round_binary64 (1 / 10) = float_0_1"
  using round_binary64_scaled[of 56 "1 / 10"]
  by (simp add: float_0_1_def np_round_def)

lemma float_2_8: "round_binary64 (28 / 10) = 3152519739159347 / 2 ^ 50"
  using round_binary64_scaled[of 51 "28 / 10"]
  by (simp add: np_round_def)

lemma threshold_2: "fl_mul float_0_1 2 = 3602879701896397 / 2 ^ 54"
  using round_binary64_scaled[of 55 "float_0_1 * 2"]
  by (simp add: fl_mul_def float_0_1_def np_round_def)

lemma threshold_2_8: "fl_mul float_0_1 (round_binary64 (28 / 10)) = 5044031582654955 / 2 ^ 54"
  unfolding float_2_8
  using round_binary64_scaled[of 54 "float_0_1 * (3152519739159347 / 2 ^ 50)"]
  by (simp add: fl_mul_def float_0_1_def np_round_def)

lemma threshold_2_8_below: "5044031582654955 / 2 ^ 54 < (0.1::real) * round_binary64 (28 / 10)"
  unfolding float_2_8 by simp

subsection \<open>The maximum of an array\<close>

lemma le_double_trans: "le_double a b \<Longrightarrow> le_double b c \<Longrightarrow> le_double a c"
  by (cases a; cases b; cases c) simp_all

lemma max_double_NaN: "max_double a NaN = NaN" "max_double NaN b = NaN"
  by (simp_all add: max_double_def)

lemma max_double_cases:
  assumes "a \<noteq> NaN" and "b \<noteq> NaN"
  shows "max_double a b \<noteq> NaN" "max_double a b = a \<or> max_double a b = b"
    "le_double a (max_double a b)" "le_double b (max_double a b)"
  using assms by (cases a; cases b; simp add: max_double_def)+

lemma not_lt_double: "a \<noteq> NaN \<Longrightarrow> \<not> lt_double a (Finite t) \<Longrightarrow> le_double (Finite t) a"
  by (cases a) simp_all

lemma fold_max_double_NaN: "NaN \<in> set (v # vs) \<Longrightarrow> fold max_double vs v = NaN"
proof (induction vs arbitrary: v)
  case Nil
  then show ?case by simp
next
  case (Cons x xs)
  show ?case
  proof (cases "x = NaN \<or> v = NaN")
    case True
    then have "max_double x v = NaN" by (auto simp: max_double_NaN)
    then show ?thesis using Cons.IH[of "max_double x v"] by simp
  next
    case False
    then have "NaN \<in> set (max_double x v # xs)" using Cons.prems by auto
    then show ?thesis using Cons.IH[of "max_double x v"] by simp
  qed
qed

lemma fold_max_double_greatest:
  "NaN \<notin> set (v # vs) \<Longrightarrow>
   fold max_double vs v \<in> set (v # vs) \<and> (\<forall>x\<in>set (v # vs). le_double x (fold max_double vs v))"
proof (induction vs arbitrary: v)
  case Nil
  then show ?case by (cases v) simp_all
next
  case (Cons x xs)
  let ?w = "max_double x v"
  have x: "x \<noteq> NaN" and v: "v \<noteq> NaN" and xs: "NaN \<notin> set xs" using Cons.prems by auto
  note w = max_double_cases[OF x v]
  have "NaN \<notin> set (?w # xs)" using w(1) xs by auto
  from Cons.IH[OF this]
  have mem: "fold max_double xs ?w \<in> set (?w # xs)"
    and ge: "\<forall>y\<in>set (?w # xs). le_double y (fold max_double xs ?w)" by simp_all
  have gw: "le_double ?w (fold max_double xs ?w)" using ge by simp
  have "le_double x (fold max_double xs ?w)" "le_double v (fold max_double xs ?w)"
    using le_double_trans[OF w(3) gw] le_double_trans[OF w(4) gw] by simp_all
  moreover have "fold max_double xs ?w \<in> set (v # x # xs)" using mem w(2) by auto
  ultimately show ?case using ge by simp
qed

lemma amax_greatest:
  assumes "amax A = Inr m"
  shows "if NaN \<in> set (concat (cells A)) then m = NaN
         else m \<in> set (concat (cells A)) \<and> (\<forall>v\<in>set (concat (cells A)). le_double v m)"
proof -
  obtain v vs where c: "concat (cells A) = v # vs" and m: "m = fold max_double vs v"
    using assms unfolding amax_def by (auto split: list.splits)
  show ?thesis
  proof (cases "NaN \<in> set (v # vs)")
    case True
    then show ?thesis unfolding c using fold_max_double_NaN[OF True] m by simp
  next
    case False
    then show ?thesis unfolding c using fold_max_double_greatest[OF False] m by auto
  qed
qed

subsection \<open>The retry loop\<close>

lemma retry_loop_result:
  "retry_loop sim idx xm seed tries = Some r \<Longrightarrow>
   (case r of Inl e \<Rightarrow> True
    | Inr (P, n) \<Rightarrow> \<exists>m. maxExp P idx = Inr m \<and> \<not> lt_double m (Finite (fl_mul float_0_1 xm)))"
proof (rule retry_loop.raw_induct
    [where P = "\<lambda>sim idx xm seed tries r.
       (case r of Inl e \<Rightarrow> True
        | Inr (P, n) \<Rightarrow> \<exists>m. maxExp P idx = Inr m \<and> \<not> lt_double m (Finite (fl_mul float_0_1 xm)))"])
  fix f :: "(int \<Rightarrow> error + ndarray) \<Rightarrow> nat list \<Rightarrow> real \<Rightarrow> int \<Rightarrow> nat
              \<Rightarrow> (error + ndarray \<times> nat) option"
    and sim :: "int \<Rightarrow> error + ndarray" and idx :: "nat list" and xm :: real and seed :: int
    and tries :: nat and r :: "error + ndarray \<times> nat"
  assume IH: "\<And>sim idx xm seed tries y. f sim idx xm seed tries = Some y \<Longrightarrow>
     (case y of Inl e \<Rightarrow> True
      | Inr (P, n) \<Rightarrow> \<exists>m. maxExp P idx = Inr m \<and> \<not> lt_double m (Finite (fl_mul float_0_1 xm)))"
  assume body: "(case sim (seed + 1000) of
        Inl e \<Rightarrow> Some (Inl e)
      | Inr P \<Rightarrow>
          (case maxExp P idx of
             Inl e \<Rightarrow> Some (Inl e)
           | Inr m \<Rightarrow>
               if lt_double m (Finite (fl_mul float_0_1 xm))
               then f sim idx xm (seed + 1000) (tries + 1)
               else Some (Inr (P, tries + 1)))) = Some r"
  show "case r of Inl e \<Rightarrow> True
        | Inr (P, n) \<Rightarrow> \<exists>m. maxExp P idx = Inr m \<and> \<not> lt_double m (Finite (fl_mul float_0_1 xm))"
    using body IH[of sim idx xm "seed + 1000" "tries + 1" r]
    by (auto split: sum.splits if_splits)
qed

lemma retry_loop_accepts:
  assumes "retry_loop sim idx xm seed tries = Some (Inr (P, n))"
  shows "\<exists>m. maxExp P idx = Inr m \<and> \<not> lt_double m (Finite (fl_mul float_0_1 xm))"
  using retry_loop_result[OF assms] by simp

lemma retry_loop_returns:
  "accepted sim idx xm (seed + 1000 * (int k + 1)) \<Longrightarrow>
   \<exists>r. retry_loop sim idx xm seed tries = Some r"
proof (induction k arbitrary: seed tries)
  case 0
  then show ?case
    by (subst retry_loop.simps) (auto simp: accepted_def split: sum.splits)
next
  case (Suc k)
  have "accepted sim idx xm ((seed + 1000) + 1000 * (int k + 1))"
    using Suc.prems by (simp add: algebra_simps)
  from Suc.IH[OF this] show ?case
    by (subst retry_loop.simps) (auto split: sum.splits)
qed

lemma retry_loop_first_accept:
  assumes "\<forall>j<k. degenerate sim idx xm (seed + 1000 * (int j + 1))"
    and "accepted sim idx xm (seed + 1000 * (int k + 1))"
    and "sim (seed + 1000 * (int k + 1)) = Inr P"
  shows "retry_loop sim idx xm seed tries = Some (Inr (P, tries + k + 1))"
  using assms
proof (induction k arbitrary: seed tries)
  case 0
  then show ?case
    by (subst retry_loop.simps) (auto simp: accepted_def split: sum.splits)
next
  case (Suc k)
  have d0: "degenerate sim idx xm (seed + 1000)"
    using Suc.prems(1) by (auto dest: spec[of _ 0])
  have rest: "\<forall>j<k. degenerate sim idx xm ((seed + 1000) + 1000 * (int j + 1))"
  proof (intro allI impI)
    fix j assume "j < k"
    then have "degenerate sim idx xm (seed + 1000 * (int (Suc j) + 1))"
      using Suc.prems(1) by (auto dest: spec[of _ "Suc j"])
    then show "degenerate sim idx xm ((seed + 1000) + 1000 * (int j + 1))"
      by (simp add: algebra_simps)
  qed
  have acc: "accepted sim idx xm ((seed + 1000) + 1000 * (int k + 1))"
    using Suc.prems(2) by (simp add: algebra_simps)
  have sim: "sim ((seed + 1000) + 1000 * (int k + 1)) = Inr P"
    using Suc.prems(3) by (simp add: algebra_simps)
  have "retry_loop sim idx xm (seed + 1000) (tries + 1) = Some (Inr (P, (tries + 1) + k + 1))"
    using Suc.IH[OF rest acc sim] .
  then show ?case using d0
    by (subst retry_loop.simps) (auto simp: degenerate_def split: sum.splits)
qed

text \<open>
  C1, as amended. Whatever the seed and however many passes the loop has made, a
  trajectory that the retry loop hands on has a largest transcript value
  \<^verbatim>\<open>P[rnaIndex, :].max()\<close> that is not below the double product \<^verbatim>\<open>0.1 * x_max\<close>: when
  a transcript value is NaN the maximum is NaN, which the test lets through; otherwise the
  maximum is the greatest of the transcript values and is at least the double nearest to
  the product of the double \<open>0.1\<close> with \<open>x_max\<close>.
\<close>

theorem accepted_trajectory_not_below_double_threshold:
  assumes "retry_loop sim idx xm seed tries = Some (Inr (P, n))"
  shows "\<exists>R m. select_rows P idx = Inr R \<and> amax R = Inr m
           \<and> \<not> lt_double m (Finite (fl_mul float_0_1 xm))
           \<and> (if NaN \<in> set (concat (cells R)) then m = NaN
               else m \<in> set (concat (cells R))
                    \<and> (\<forall>v\<in>set (concat (cells R)). le_double v m)
                    \<and> le_double (Finite (fl_mul float_0_1 xm)) m)"
proof -
  obtain m where m: "maxExp P idx = Inr m"
    and nlt: "\<not> lt_double m (Finite (fl_mul float_0_1 xm))"
    using retry_loop_accepts[OF assms] by blast
  then obtain R where R: "select_rows P idx = Inr R" and a: "amax R = Inr m"
    unfolding maxExp_def by (auto split: sum.splits)
  have "if NaN \<in> set (concat (cells R)) then m = NaN
        else m \<in> set (concat (cells R))
             \<and> (\<forall>v\<in>set (concat (cells R)). le_double v m)
             \<and> le_double (Finite (fl_mul float_0_1 xm)) m"
  proof (cases "NaN \<in> set (concat (cells R))")
    case True
    then show ?thesis using amax_greatest[OF a] by simp
  next
    case False
    then have g: "m \<in> set (concat (cells R))" "\<forall>v\<in>set (concat (cells R)). le_double v m"
      using amax_greatest[OF a] by simp_all
    then have "m \<noteq> NaN" using False by auto
    then have "le_double (Finite (fl_mul float_0_1 xm)) m" using nlt by (rule not_lt_double)
    then show ?thesis using False g by simp
  qed
  then show ?thesis using R a nlt by blast
qed

lemma example_retry: "retry_loop example_sim [0] 2 0 0 = Some (Inr (example_high, 3))"
  by (simp add: retry_loop.simps example_sim_def example_low_def example_high_def
      maxExp_def select_rows_def amax_def max_double_def threshold_2)

theorem accepted_trajectory_not_below_double_threshold_witness:
  "retry_loop example_sim [0] 2 0 0 = Some (Inr (example_high, 3)) \<and>
   (\<exists>R m. select_rows example_high [0] = Inr R \<and> amax R = Inr m
      \<and> m \<in> set (concat (cells R)) \<and> le_double (Finite (fl_mul float_0_1 2)) m)"
proof -
  obtain R m where R: "select_rows example_high [0] = Inr R" and a: "amax R = Inr m"
    and c: "if NaN \<in> set (concat (cells R)) then m = NaN
            else m \<in> set (concat (cells R))
                 \<and> (\<forall>v\<in>set (concat (cells R)). le_double v m)
                 \<and> le_double (Finite (fl_mul float_0_1 2)) m"
    using accepted_trajectory_not_below_double_threshold[OF example_retry] by blast
  have "cells R = [map Finite [1, 0.5, 1.5, 0.25]]"
    using R by (auto simp: select_rows_def example_high_def split: if_splits)
  then have "NaN \<notin> set (concat (cells R))" by simp
  then have "m \<in> set (concat (cells R)) \<and> le_double (Finite (fl_mul float_0_1 2)) m"
    using c by simp
  then show ?thesis using example_retry R a by blast
qed

text \<open>
  The claim as stated compares with the exact product and leaves NaN out. With
  \<^verbatim>\<open>x_max = 2.8\<close> a trajectory whose transcript stays at \<open>0.27999999999999997\<close> is
  handed on by the first pass although that value is below a tenth of \<open>x_max\<close>; and a
  trajectory holding a NaN is handed on with the maximum NaN, which is not at least
  anything.
\<close>

theorem accepted_trajectory_below_exact_threshold:
  "retry_loop (\<lambda>seed. Inr example_edge) [0] (round_binary64 (28 / 10)) 0 0
     = Some (Inr (example_edge, 1))
   \<and> maxExp example_edge [0] = Inr (Finite (5044031582654955 / 2 ^ 54))
   \<and> 5044031582654955 / 2 ^ 54 < (0.1::real) * round_binary64 (28 / 10)
   \<and> retry_loop (\<lambda>seed. Inr example_nan) [0] 2 0 0 = Some (Inr (example_nan, 1))
   \<and> maxExp example_nan [0] = Inr NaN
   \<and> \<not> le_double (Finite (fl_mul float_0_1 2)) NaN"
proof -
  have m1: "maxExp example_edge [0] = Inr (Finite (5044031582654955 / 2 ^ 54))"
    by (simp add: example_edge_def maxExp_def select_rows_def amax_def max_double_def)
  have r1: "retry_loop (\<lambda>seed. Inr example_edge) [0] (round_binary64 (28 / 10)) 0 0
              = Some (Inr (example_edge, 1))"
    by (subst retry_loop.simps, simp only: threshold_2_8, simp add: m1)
  have m2: "maxExp example_nan [0] = Inr NaN"
    by (simp add: example_nan_def maxExp_def select_rows_def amax_def max_double_def)
  have r2: "retry_loop (\<lambda>seed. Inr example_nan) [0] 2 0 0 = Some (Inr (example_nan, 1))"
    by (subst retry_loop.simps) (simp add: m2)
  have n: "\<not> le_double (Finite (fl_mul float_0_1 2)) NaN" by simp
  show ?thesis using r1 m1 threshold_2_8_below r2 m2 n by (intro conjI)
qed

text \<open>
  C10. If the attempt number \<open>k + 1\<close> (seed \<open>seed + 1000 * (k + 1)\<close>) is one the test
  accepts, the loop returns. If moreover every earlier attempt is degenerate, the loop
  returns on exactly that attempt, with its trajectory and \<open>tries\<close> advanced by \<open>k + 1\<close>.
\<close>

theorem retry_loop_terminates:
  assumes "accepted sim idx xm (seed + 1000 * (int k + 1))"
  shows "(\<exists>r. retry_loop sim idx xm seed tries = Some r) \<and>
         ((\<forall>j<k. degenerate sim idx xm (seed + 1000 * (int j + 1))) \<longrightarrow>
          (\<exists>P. sim (seed + 1000 * (int k + 1)) = Inr P \<and>
               retry_loop sim idx xm seed tries = Some (Inr (P, tries + k + 1))))"
proof -
  obtain P where P: "sim (seed + 1000 * (int k + 1)) = Inr P"
    using assms unfolding accepted_def by (auto split: sum.splits)
  show ?thesis
    using retry_loop_returns[OF assms] retry_loop_first_accept[OF _ assms P] P by blast
qed

lemma example_accepted: "accepted example_sim [0] 2 (0 + 1000 * (int 2 + 1))"
  by (simp add: accepted_def example_sim_def example_high_def maxExp_def select_rows_def amax_def
      max_double_def threshold_2)

lemma example_degenerate: "\<forall>j<2. degenerate example_sim [0] 2 (0 + 1000 * (int j + 1))"
  by (simp add: degenerate_def example_sim_def example_low_def maxExp_def select_rows_def
      amax_def max_double_def threshold_2 less_Suc_eq numeral_2_eq_2)

theorem retry_loop_terminates_witness:
  "accepted example_sim [0] 2 (0 + 1000 * (int 2 + 1)) \<and>
   degenerate example_sim [0] 2 (0 + 1000 * (int 0 + 1)) \<and>
   degenerate example_sim [0] 2 (0 + 1000 * (int 1 + 1)) \<and>
   retry_loop example_sim [0] 2 0 0 = Some (Inr (example_high, 0 + 2 + 1))"
proof -
  have "example_sim (0 + 1000 * (int 2 + 1)) = Inr example_high"
    by (simp add: example_sim_def)
  then show ?thesis
    using retry_loop_terminates[OF example_accepted, of 0] example_accepted example_degenerate
    by (auto simp: less_Suc_eq numeral_2_eq_2)
qed

subsection \<open>The snapshot windows\<close>

lemma np_round_strict: "x + 1 < y \<Longrightarrow> np_round x < np_round y"
proof -
  assume h: "x + 1 < y"
  have "real_of_int (np_round x) \<le> x + 1/2" by (rule np_round_bounds)
  moreover have "y - 1/2 \<le> real_of_int (np_round y)" by (rule np_round_bounds)
  ultimately have "real_of_int (np_round x) < real_of_int (np_round y)" using h by linarith
  then show ?thesis by simp
qed

lemma length_linspace: "length (linspace a b num) = num"
  by (auto simp: linspace_def Let_def)

lemma length_limits: "length (snapshotIndicesLimits steps n) = n + 1"
  by (simp add: snapshotIndicesLimits_def length_linspace)

text \<open>
  The step of the grid for \<open>n\<close> windows over \<open>steps \<ge> n\<close> indices: at least one, and
  small enough for \<open>n - 1\<close> steps to stay within \<open>steps\<close>.
\<close>

lemma grid_step_ge_1:
  assumes "0 < n" and "int n \<le> steps"
  shows "1 \<le> fl_div (of_int steps) (real n)"
proof -
  have "1 \<le> real_of_int steps / real n" using assms by simp
  then have "round_binary64 1 \<le> round_binary64 (real_of_int steps / real n)"
    by (intro round_binary64_mono) simp_all
  then show ?thesis by (simp add: fl_div_def round_binary64_one)
qed

lemma grid_step_upper:
  assumes "0 < n" and "int n \<le> steps" and "steps \<le> 2 ^ 53"
  shows "real (n - 1) * fl_div (of_int steps) (real n) \<le> of_int steps"
proof -
  let ?q = "real_of_int steps / real n"
  have q: "1 \<le> ?q" using assms by simp
  have s: "fl_div (of_int steps) (real n) \<le> ?q * (1 + 1 / 2 ^ 53)"
    unfolding fl_div_def by (rule round_binary64_relative[OF q])
  have "int (n - 1) \<le> 2 ^ 53" using assms by linarith
  then have "real_of_int (int (n - 1)) \<le> real_of_int (2 ^ 53)" by (simp only: of_int_le_iff)
  then have n1: "real (n - 1) \<le> 2 ^ 53" by simp
  have "real (n - 1) * fl_div (of_int steps) (real n) \<le> real (n - 1) * (?q * (1 + 1 / 2 ^ 53))"
    using s by (intro mult_left_mono) simp_all
  also have "\<dots> = ?q * (real (n - 1) + real (n - 1) / 2 ^ 53)"
    by (simp add: algebra_simps)
  also have "\<dots> \<le> ?q * (real (n - 1) + 1)"
    using q n1 by (intro mult_left_mono) simp_all
  also have "\<dots> = of_int steps" using assms(1) by (simp add: of_nat_diff)
  finally show ?thesis .
qed

lemma linspace_nth:
  assumes "0 < n" and "int n \<le> steps" and "steps \<le> 2 ^ 53" and "i \<le> n"
  shows "linspace 0 (of_int steps) (n + 1) ! i =
           (if i < n
            then fl_add (fl_mul (real i) (fl_div (of_int steps) (real n))) 0
            else of_int steps)"
proof -
  have s0: "0 \<le> steps" using assms by linarith
  have b: "round_binary64 (of_int steps) = of_int steps"
    using s0 assms(3) by (rule round_binary64_of_int)
  have "int n \<le> 2 ^ 53" using assms by linarith
  then have n53: "n \<le> 2 ^ 53" by (metis of_nat_le_iff of_nat_numeral of_nat_power)
  have dv: "round_binary64 (real n) = real n" using n53 by (rule round_binary64_of_nat)
  have st: "fl_div (of_int steps) (real n) \<noteq> 0"
    using grid_step_ge_1[OF assms(1,2)] by simp
  show ?thesis
  proof (cases "i < n")
    case True
    then have "i \<le> 2 ^ 53" using n53 by simp
    then have y: "round_binary64 (real i) = real i" by (rule round_binary64_of_nat)
    show ?thesis using True assms(1) st
      by (simp add: linspace_def Let_def nth_append round_binary64_zero b dv y fl_sub_def)
  next
    case False
    then have "i = n" using assms(4) by simp
    then show ?thesis using assms(1)
      by (simp add: linspace_def Let_def nth_append round_binary64_zero b)
  qed
qed

lemma limits_nth:
  assumes "0 < n" and "int n \<le> steps" and "steps \<le> 2 ^ 53" and "i \<le> n"
  shows "snapshotIndicesLimits steps n ! i =
           np_round (if i < n
                     then fl_add (fl_mul (real i) (fl_div (of_int steps) (real n))) 0
                     else of_int steps)"
  using assms(4) linspace_nth[OF assms]
  by (simp add: snapshotIndicesLimits_def length_linspace del: of_nat_add)

lemma limits_first:
  assumes "0 < n" and "int n \<le> steps" and "steps \<le> 2 ^ 53"
  shows "snapshotIndicesLimits steps n ! 0 = 0"
  using limits_nth[OF assms, of 0] assms(1) np_round_of_int[of 0]
  by (simp add: fl_add_def fl_mul_def round_binary64_zero)

lemma limits_last:
  assumes "0 < n" and "int n \<le> steps" and "steps \<le> 2 ^ 53"
  shows "snapshotIndicesLimits steps n ! n = steps"
  using limits_nth[OF assms, of n] np_round_of_int[of steps] by simp

lemma limits_step:
  assumes "0 < n" and "int n \<le> steps" and "steps \<le> 2 ^ 53" and "i < n"
  shows "snapshotIndicesLimits steps n ! i \<le> snapshotIndicesLimits steps n ! (i + 1)"
proof -
  let ?s = "fl_div (of_int steps) (real n)"
  have s1: "1 \<le> ?s" by (rule grid_step_ge_1[OF assms(1,2)])
  have s0: "0 \<le> steps" using assms by linarith
  have b: "round_binary64 (of_int steps) = of_int steps"
    using s0 assms(3) by (rule round_binary64_of_int)
  have xi: "0 \<le> real i * ?s" using s1 by simp
  have Li: "snapshotIndicesLimits steps n ! i = np_round (fl_add (fl_mul (real i) ?s) 0)"
    using limits_nth[OF assms(1-3), of i] assms(4) by simp
  show ?thesis
  proof (cases "i + 1 < n")
    case True
    have Lj: "snapshotIndicesLimits steps n ! (i + 1) = np_round (fl_add (fl_mul (real (i + 1)) ?s) 0)"
      using limits_nth[OF assms(1-3), of "i + 1"] True by simp
    have "real i * ?s \<le> real (i + 1) * ?s" using s1 by (intro mult_right_mono) simp_all
    then have "fl_mul (real i) ?s \<le> fl_mul (real (i + 1)) ?s"
      unfolding fl_mul_def using xi by (intro round_binary64_mono)
    moreover have "0 \<le> fl_mul (real i) ?s"
      unfolding fl_mul_def using xi by (rule round_binary64_nonneg)
    ultimately have "fl_add (fl_mul (real i) ?s) 0 \<le> fl_add (fl_mul (real (i + 1)) ?s) 0"
      unfolding fl_add_def by (intro round_binary64_mono) simp_all
    then show ?thesis unfolding Li Lj by (rule np_round_mono)
  next
    case False
    then have e: "i + 1 = n" using assms(4) by simp
    then have i: "i = n - 1" by simp
    have Lj: "snapshotIndicesLimits steps n ! (i + 1) = np_round (of_int steps)"
      using limits_nth[OF assms(1-3), of n] e by simp
    have "real i * ?s \<le> of_int steps" unfolding i by (rule grid_step_upper[OF assms(1-3)])
    then have "fl_mul (real i) ?s \<le> round_binary64 (of_int steps)"
      unfolding fl_mul_def using xi by (intro round_binary64_mono)
    then have le: "fl_mul (real i) ?s \<le> of_int steps" by (simp only: b)
    have "0 \<le> fl_mul (real i) ?s"
      unfolding fl_mul_def using xi by (rule round_binary64_nonneg)
    then have "fl_add (fl_mul (real i) ?s) 0 \<le> round_binary64 (of_int steps)"
      unfolding fl_add_def using le by (intro round_binary64_mono) simp_all
    then have "fl_add (fl_mul (real i) ?s) 0 \<le> of_int steps" by (simp only: b)
    then show ?thesis unfolding Li Lj by (rule np_round_mono)
  qed
qed

lemma limits_mono:
  assumes "0 < n" and "int n \<le> steps" and "steps \<le> 2 ^ 53" and "i \<le> j" and "j \<le> n"
  shows "snapshotIndicesLimits steps n ! i \<le> snapshotIndicesLimits steps n ! j"
  using assms(4,5)
proof (induction j)
  case 0
  then show ?case by simp
next
  case (Suc j)
  show ?case
  proof (cases "i = Suc j")
    case True
    then show ?thesis by simp
  next
    case False
    then have ij: "i \<le> j" and jn: "j < n" using Suc.prems by simp_all
    have "snapshotIndicesLimits steps n ! i \<le> snapshotIndicesLimits steps n ! j"
      using Suc.IH[OF ij] jn by simp
    also have "\<dots> \<le> snapshotIndicesLimits steps n ! (j + 1)"
      by (rule limits_step[OF assms(1-3) jn])
    finally show ?thesis by simp
  qed
qed

lemma windows_union:
  assumes "0 < n" and "int n \<le> steps" and "steps \<le> 2 ^ 53"
  shows "(\<Union>i<n. window (snapshotIndicesLimits steps n) i) = {0..<steps}"
proof -
  note mono = limits_mono[OF assms]
  have gen: "k \<le> n \<Longrightarrow> (\<Union>i<k. window (snapshotIndicesLimits steps n) i) = {0..<snapshotIndicesLimits steps n ! k}" for k
  proof (induction k)
    case 0
    then show ?case by (simp add: limits_first[OF assms])
  next
    case (Suc k)
    have a: "0 \<le> snapshotIndicesLimits steps n ! k"
      using mono[of 0 k] Suc.prems by (simp add: limits_first[OF assms])
    have b: "snapshotIndicesLimits steps n ! k \<le> snapshotIndicesLimits steps n ! Suc k"
      using mono[of k "Suc k"] Suc.prems by simp
    have "(\<Union>i<Suc k. window (snapshotIndicesLimits steps n) i)
          = (\<Union>i<k. window (snapshotIndicesLimits steps n) i) \<union> window (snapshotIndicesLimits steps n) k"
      by (simp add: lessThan_Suc Un_commute)
    also have "\<dots> = {0..<snapshotIndicesLimits steps n ! k} \<union> {snapshotIndicesLimits steps n ! k..<snapshotIndicesLimits steps n ! Suc k}"
      using Suc by (simp add: window_def)
    also have "\<dots> = {0..<snapshotIndicesLimits steps n ! Suc k}"
      using a b by (rule ivl_disj_un_two(3))
    finally show ?case .
  qed
  show ?thesis using gen[of n] by (simp add: limits_last[OF assms])
qed

lemma windows_disjoint:
  assumes "0 < n" and "int n \<le> steps" and "steps \<le> 2 ^ 53" and "i < j" and "j < n"
  shows "window (snapshotIndicesLimits steps n) i \<inter> window (snapshotIndicesLimits steps n) j = {}"
proof -
  have "snapshotIndicesLimits steps n ! (i + 1) \<le> snapshotIndicesLimits steps n ! j"
    using limits_mono[OF assms(1-3), of "i + 1" j] assms(4,5) by simp
  then show ?thesis by (auto simp: window_def)
qed

text \<open>
  The distance between two neighbouring grid points is more than one when there are more
  steps than windows and at most \<open>2^24\<close> windows.
\<close>

lemma grid_margin:
  fixes N q s :: real
  assumes N: "1 \<le> N" "N \<le> 2 ^ 24" and q: "1 + 1 / N \<le> q" and s: "q * (1 - 1 / 2 ^ 53) \<le> s"
  shows "1 < s * (1 - 5 * N / 2 ^ 53)"
proof -
  define e :: real where "e = 1 / 2 ^ 53"
  have e: "0 < e" by (simp add: e_def)
  have NN: "N * N \<le> 2 ^ 24 * 2 ^ 24" using N by (intro mult_mono) simp_all
  have small: "12 * (N * N) * e < 1"
  proof -
    have "12 * (N * N) * e \<le> 12 * (2 ^ 24 * 2 ^ 24) * e"
      using NN e by (intro mult_right_mono mult_left_mono) simp_all
    also have "\<dots> < 1" by (simp add: e_def)
    finally show ?thesis .
  qed
  have Ne: "N * e \<le> N * N * e" using N e by (intro mult_right_mono) (simp_all add: mult_le_cancel_left1)
  have e1: "e \<le> N * e" using N e by simp
  have pos: "0 < 1 - 5 * N * e"
  proof -
    have "5 * (N * e) \<le> 12 * (N * N * e)" using Ne N e by simp
    then show ?thesis using small by (simp add: mult.assoc)
  qed
  have s1: "(1 + 1 / N) * (1 - e) \<le> s"
  proof -
    have "(1 + 1 / N) * (1 - e) \<le> q * (1 - e)"
      using q by (intro mult_right_mono) (simp_all add: e_def)
    then show ?thesis using s by (simp add: e_def)
  qed
  have "N < (N + 1) * (1 - e) * (1 - 5 * N * e)"
  proof -
    have "(N + 1) * (1 - e) * (1 - 5 * N * e)
            = N + 1 - (N + 1) * e - 5 * N * e * (N + 1) + 5 * N * e * e * (N + 1)"
      by (simp add: algebra_simps)
    moreover have "0 \<le> 5 * N * e * e * (N + 1)" using N e by simp
    moreover have "(N + 1) * e + 5 * N * e * (N + 1) \<le> 12 * (N * N) * e"
    proof -
      have "(N + 1) * e + 5 * N * e * (N + 1) = 5 * (N * N * e) + 6 * (N * e) + e"
        by (simp add: algebra_simps)
      also have "\<dots> \<le> 5 * (N * N * e) + 6 * (N * N * e) + N * N * e"
        using Ne e1 by linarith
      finally show ?thesis by (simp add: algebra_simps)
    qed
    ultimately show ?thesis using small by linarith
  qed
  then have "N / N < (N + 1) * (1 - e) * (1 - 5 * N * e) / N"
    using N by (intro divide_strict_right_mono) simp_all
  then have "1 < (1 + 1 / N) * (1 - e) * (1 - 5 * N * e)"
    using N by (simp add: field_simps)
  also have "\<dots> \<le> s * (1 - 5 * N * e)"
    using s1 pos by (intro mult_right_mono) simp_all
  finally show ?thesis by (simp add: e_def)
qed


lemma grid_point_upper:
  assumes "1 \<le> s"
  shows "fl_add (fl_mul (real j) s) 0 \<le> real j * s * (1 + 3 / 2 ^ 53)"
proof (cases "j = 0")
  case True
  then show ?thesis by (simp add: fl_add_def fl_mul_def round_binary64_zero)
next
  case False
  then have "1 \<le> real j" by simp
  then have "1 * 1 \<le> real j * s" using assms by (intro mult_mono) simp_all
  then have "1 \<le> real j * s" by simp
  then show ?thesis unfolding fl_add_def fl_mul_def using round_twice_upper[of "real j * s"] by simp
qed

lemma grid_point_lower:
  assumes "1 \<le> s" and "0 < j"
  shows "real j * s * (1 - 2 / 2 ^ 53) \<le> fl_add (fl_mul (real j) s) 0"
proof -
  have "1 \<le> real j" using assms(2) by simp
  then have "1 * 1 \<le> real j * s" using assms by (intro mult_mono) simp_all
  then have "1 \<le> real j * s" by simp
  then show ?thesis unfolding fl_add_def fl_mul_def using round_twice_lower[of "real j * s"] by simp
qed

lemma gap_from_margin: "m \<le> b - a \<Longrightarrow> 1 < m \<Longrightarrow> a + 1 < (b::real)"
  by linarith

lemma gap_between: "a + 1 < b \<Longrightarrow> x \<le> a \<Longrightarrow> b \<le> y \<Longrightarrow> x + 1 < (y::real)"
  by linarith

lemma gap_below: "a \<le> t - m \<Longrightarrow> 1 < m \<Longrightarrow> x \<le> a \<Longrightarrow> x + 1 < (t::real)"
  by linarith

lemma last_gap_algebra:
  fixes N q e :: real
  shows "(N - 1) * q * (1 + 5 * e) = q * N - q * (1 - 5 * N * e) - 5 * q * e"
  by (simp add: algebra_simps)

lemma limits_strict:
  assumes "0 < n" and "int n \<le> steps" and "steps \<le> 2 ^ 53" and "n \<le> 2 ^ 24" and "i < n"
  shows "snapshotIndicesLimits steps n ! i < snapshotIndicesLimits steps n ! (i + 1)"
proof (cases "steps = int n")
  case True
  have eq: "snapshotIndicesLimits steps n ! j = int j" if "j \<le> n" for j
  proof (cases "j < n")
    case False
    then have "j = n" using that by simp
    then show ?thesis using limits_last[OF assms(1-3)] True by simp
  next
    case jn: True
    have "int n \<le> 2 ^ 53" using assms(2,3) by linarith
    then have "n \<le> 2 ^ 53" by (metis of_nat_le_iff of_nat_numeral of_nat_power)
    then have "j \<le> 2 ^ 53" using jn by simp
    then have r: "round_binary64 (real j) = real j" by (rule round_binary64_of_nat)
    have "fl_div (real_of_int steps) (real n) = 1"
      using True assms(1) by (simp add: fl_div_def round_binary64_one)
    then have "snapshotIndicesLimits steps n ! j = np_round (fl_add (fl_mul (real j) 1) 0)"
      using limits_nth[OF assms(1-3) that] jn by simp
    also have "\<dots> = np_round (of_int (int j))" by (simp add: fl_add_def fl_mul_def r)
    also have "\<dots> = int j" by (rule np_round_of_int)
    finally show ?thesis .
  qed
  show ?thesis using eq[of i] eq[of "i + 1"] assms(5) by simp
next
  case False
  then have gt: "int n + 1 \<le> steps" using assms(2) by simp
  define N :: real where "N = real n"
  define q :: real where "q = real_of_int steps / N"
  define s :: real where "s = fl_div (real_of_int steps) (real n)"
  have N: "1 \<le> N" "N \<le> 2 ^ 24"
  proof -
    show "1 \<le> N" using assms(1) by (simp add: N_def)
    have "real n \<le> real (2 ^ 24)" using assms(4) by (simp only: of_nat_le_iff)
    then show "N \<le> 2 ^ 24" by (simp add: N_def)
  qed
  have qN: "q * N = real_of_int steps" using N by (simp add: q_def)
  have q: "1 + 1 / N \<le> q"
  proof -
    have "real_of_int (int n + 1) \<le> real_of_int steps" using gt by (simp only: of_int_le_iff)
    then have "N + 1 \<le> real_of_int steps" by (simp add: N_def)
    then have "(N + 1) / N \<le> real_of_int steps / N" using N by (intro divide_right_mono) simp_all
    then show ?thesis using N by (simp add: q_def field_simps)
  qed
  have q1: "1 \<le> q" using q N by (smt (verit) divide_nonneg_nonneg)
  have s_lo: "q * (1 - 1 / 2 ^ 53) \<le> s"
    unfolding s_def fl_div_def q_def N_def
    using round_binary64_relative_lower[of "real_of_int steps / real n"] q1
    by (simp add: q_def N_def)
  have s_hi: "s \<le> q * (1 + 1 / 2 ^ 53)"
    unfolding s_def fl_div_def q_def N_def
    using round_binary64_relative[of "real_of_int steps / real n"] q1
    by (simp add: q_def N_def)
  have s1: "1 \<le> s" unfolding s_def by (rule grid_step_ge_1[OF assms(1,2)])
  have ms: "1 < s * (1 - 5 * N / 2 ^ 53)" by (rule grid_margin[OF N q s_lo])
  have mq: "1 < q * (1 - 5 * N / 2 ^ 53)"
  proof -
    have "q * (1 - 1 / 2 ^ 53) \<le> q" using q1 by (simp add: mult_le_cancel_left1)
    then show ?thesis by (rule grid_margin[OF N q])
  qed
  have Li: "snapshotIndicesLimits steps n ! i = np_round (fl_add (fl_mul (real i) s) 0)"
    using limits_nth[OF assms(1-3), of i] assms(5) by (simp add: s_def)
  have up: "fl_add (fl_mul (real i) s) 0 \<le> real i * s * (1 + 3 / 2 ^ 53)"
    by (rule grid_point_upper[OF s1])
  show ?thesis
  proof (cases "i + 1 < n")
    case True
    have Lj: "snapshotIndicesLimits steps n ! (i + 1) = np_round (fl_add (fl_mul (real (i + 1)) s) 0)"
      using limits_nth[OF assms(1-3), of "i + 1"] True by (simp add: s_def)
    have lo: "real (i + 1) * s * (1 - 2 / 2 ^ 53) \<le> fl_add (fl_mul (real (i + 1)) s) 0"
      by (rule grid_point_lower[OF s1]) simp
    have iN: "real i + 2 \<le> N" using True by (simp add: N_def)
    have "s * (1 - 5 * N / 2 ^ 53) \<le> s * (1 - 2 / 2 ^ 53 - 5 * real i / 2 ^ 53)"
      using s1 iN by (intro mult_left_mono) (simp_all add: field_simps)
    also have "\<dots> = real (i + 1) * s * (1 - 2 / 2 ^ 53) - real i * s * (1 + 3 / 2 ^ 53)"
      by (simp add: algebra_simps)
    finally have "real i * s * (1 + 3 / 2 ^ 53) + 1 < real (i + 1) * s * (1 - 2 / 2 ^ 53)"
      using ms by (rule gap_from_margin)
    then have "fl_add (fl_mul (real i) s) 0 + 1 < fl_add (fl_mul (real (i + 1)) s) 0"
      using up lo by (rule gap_between)
    then show ?thesis unfolding Li Lj by (rule np_round_strict)
  next
    case False
    then have e: "i + 1 = n" using assms(5) by simp
    have Lj: "snapshotIndicesLimits steps n ! (i + 1) = np_round (real_of_int steps)"
      using limits_last[OF assms(1-3)] np_round_of_int[of steps] e by simp
    have iN: "real i = N - 1" using e by (simp add: N_def)
    have i0: "0 \<le> real i" by simp
    have "real i * s * (1 + 3 / 2 ^ 53) \<le> real i * (q * (1 + 1 / 2 ^ 53)) * (1 + 3 / 2 ^ 53)"
      using s_hi i0 by (intro mult_right_mono mult_left_mono) simp_all
    also have "\<dots> = real i * q * ((1 + 1 / 2 ^ 53) * (1 + 3 / 2 ^ 53))" by simp
    also have "\<dots> \<le> real i * q * (1 + 5 / 2 ^ 53)"
      using q1 i0 by (intro mult_left_mono) simp_all
    also have "\<dots> = q * N - q * (1 - 5 * N / 2 ^ 53) - 5 * q / 2 ^ 53"
      unfolding iN using last_gap_algebra[of N q "1 / 2 ^ 53"] by simp
    also have "\<dots> \<le> q * N - q * (1 - 5 * N / 2 ^ 53)" using q1 by simp
    finally have "real i * s * (1 + 3 / 2 ^ 53) \<le> real_of_int steps - q * (1 - 5 * N / 2 ^ 53)"
      unfolding qN .
    then have "fl_add (fl_mul (real i) s) 0 + 1 < real_of_int steps"
      using mq up by (rule gap_below)
    then show ?thesis unfolding Li Lj by (rule np_round_strict)
  qed
qed

lemma randint_range: "(\<exists>raw. randint raw lo hi = Inr v) \<longleftrightarrow> v \<in> {lo..<hi}"
proof
  assume "\<exists>raw. randint raw lo hi = Inr v"
  then obtain raw where r: "randint raw lo hi = Inr v" by blast
  then have lt: "lo < hi" and v: "v = lo + int (raw mod nat (hi - lo))"
    unfolding randint_def by (auto split: if_splits)
  have "raw mod nat (hi - lo) < nat (hi - lo)" using lt by simp
  then have "int (raw mod nat (hi - lo)) < hi - lo" by (simp only: zless_nat_eq_int_zless)
  then show "v \<in> {lo..<hi}" using v by simp
next
  assume "v \<in> {lo..<hi}"
  then have "randint (nat (v - lo)) lo hi = Inr v"
    unfolding randint_def by auto
  then show "\<exists>raw. randint raw lo hi = Inr v" by blast
qed

text \<open>
  The grid is the one numpy computes, not the exact one: for 30 time points and 14
  snapshots the step is the double nearest to \<open>29 / 14\<close>, seven steps give
  \<open>14.500000000000002\<close>, and limit 7 is 15 where the exact grid point \<open>14.5\<close> would
  round to 14.
\<close>

lemma limits_30_14: "snapshotIndicesLimits (int 30 - 1) 14 ! 7 = 15"
proof -
  have s: "fl_div 29 14 = 4664442471205157 / 2 ^ 51"
    unfolding fl_div_def using round_binary64_scaled[of 51 "29 / 14"]
    by (simp add: np_round_def)
  have m: "fl_mul 7 (4664442471205157 / 2 ^ 51) = 8162774324609025 / 2 ^ 49"
    unfolding fl_mul_def using round_binary64_scaled[of 49 "7 * (4664442471205157 / 2 ^ 51)"]
    by (simp add: np_round_def)
  have a: "fl_add (8162774324609025 / 2 ^ 49) 0 = 8162774324609025 / 2 ^ 49"
    unfolding fl_add_def using round_binary64_scaled[of 49 "8162774324609025 / 2 ^ 49"]
    by (simp add: np_round_def)
  have "snapshotIndicesLimits 29 14 ! 7 = np_round (fl_add (fl_mul 7 (fl_div 29 14)) 0)"
    using limits_nth[of 14 29 7] by simp
  also have "\<dots> = 15" unfolding s m a by (simp add: np_round_def)
  finally show ?thesis by simp
qed

text \<open>
  C2, as amended. For \<open>n \<ge> 1\<close> snapshots and a trajectory of \<open>T \<ge> n + 1\<close> time
  points (and at most \<open>2^53\<close>, beyond which the indices are no longer doubles), the
  \<open>n\<close> windows \<open>[limits[i], limits[i+1])\<close> cut from the grid that \<^verbatim>\<open>np.linspace\<close>
  computes in doubles are pairwise disjoint and their union is the set of time indices
  \<open>0, ..., T - 2\<close>: the last index \<open>T - 1\<close> is the upper limit of the last window,
  which \<^verbatim>\<open>randint\<close> excludes. With at most \<open>2^24\<close> snapshots no window is empty.
\<close>

theorem snapshot_windows_partition:
  assumes "1 \<le> n" and "n + 1 \<le> T" and "T \<le> 2 ^ 53"
  shows "(\<forall>i<n. \<forall>j<n. i \<noteq> j \<longrightarrow>
            window (snapshotIndicesLimits (int T - 1) n) i
              \<inter> window (snapshotIndicesLimits (int T - 1) n) j = {})
         \<and> (\<Union>i<n. window (snapshotIndicesLimits (int T - 1) n) i) = {0..<int T - 1}
         \<and> int T - 1 \<notin> (\<Union>i<n. window (snapshotIndicesLimits (int T - 1) n) i)
         \<and> (n \<le> 2 ^ 24 \<longrightarrow>
              (\<forall>i<n. window (snapshotIndicesLimits (int T - 1) n) i \<noteq> {}))"
proof -
  let ?L = "snapshotIndicesLimits (int T - 1) n"
  have n: "0 < n" and ns: "int n \<le> int T - 1" using assms by simp_all
  have "int T \<le> int (2 ^ 53)" using assms(3) by (simp only: of_nat_le_iff)
  then have s: "int T - 1 \<le> 2 ^ 53" by simp
  have disj: "\<forall>i<n. \<forall>j<n. i \<noteq> j \<longrightarrow> window ?L i \<inter> window ?L j = {}"
  proof (intro allI impI)
    fix i j assume ij: "i < n" "j < n" "i \<noteq> j"
    show "window ?L i \<inter> window ?L j = {}"
    proof (cases "i < j")
      case True
      then show ?thesis using windows_disjoint[OF n ns s _ ij(2)] by simp
    next
      case False
      then have "j < i" using ij by simp
      then have "window ?L j \<inter> window ?L i = {}" using windows_disjoint[OF n ns s _ ij(1)] by simp
      then show ?thesis by blast
    qed
  qed
  have un: "(\<Union>i<n. window ?L i) = {0..<int T - 1}" by (rule windows_union[OF n ns s])
  have ne: "n \<le> 2 ^ 24 \<longrightarrow> (\<forall>i<n. window ?L i \<noteq> {})"
  proof (intro impI allI)
    fix i assume "n \<le> 2 ^ 24" and "i < n"
    then have "?L ! i < ?L ! (i + 1)" by (rule limits_strict[OF n ns s])
    then show "window ?L i \<noteq> {}" by (auto simp: window_def)
  qed
  have "int T - 1 \<notin> {0..<int T - 1}" by simp
  then show ?thesis using disj un ne by simp
qed

lemma limits_5_2: "snapshotIndicesLimits (int 5 - 1) 2 = [0, 2, 4]"
  by (simp add: snapshotIndicesLimits_def linspace_def Let_def np_round_def upt_rec
      fl_add_def fl_sub_def fl_mul_def fl_div_def round_binary64_zero round_binary64_one
      round_binary64_numeral)

theorem snapshot_windows_partition_witness:
  "(1::nat) \<le> 2 \<and> (2::nat) + 1 \<le> 5 \<and> (5::nat) \<le> 2 ^ 53 \<and> (2::nat) \<le> 2 ^ 24
   \<and> snapshotIndicesLimits (int 5 - 1) 2 = [0, 2, 4]
   \<and> window (snapshotIndicesLimits (int 5 - 1) 2) 0
       \<inter> window (snapshotIndicesLimits (int 5 - 1) 2) 1 = {}
   \<and> (\<Union>i<2. window (snapshotIndicesLimits (int 5 - 1) 2) i) = {0..<int 5 - 1}
   \<and> int 5 - 1 \<notin> (\<Union>i<2. window (snapshotIndicesLimits (int 5 - 1) 2) i)
   \<and> window (snapshotIndicesLimits (int 5 - 1) 2) 0 \<noteq> {}
   \<and> window (snapshotIndicesLimits (int 5 - 1) 2) 1 \<noteq> {}"
  using snapshot_windows_partition[of 2 5] limits_5_2 by simp

text \<open>
  The claim as stated fails already for three time points and two snapshots: the limits
  are \<open>[0, 1, 2]\<close>, the windows are \<open>{0}\<close> and \<open>{1}\<close>, and time index \<open>2\<close> lies in the
  range \<open>[0, T - 1]\<close> but in no window.
\<close>

theorem snapshot_windows_miss_last_index:
  "(2::nat) + 1 \<le> 3
   \<and> snapshotIndicesLimits (int 3 - 1) 2 = [0, 1, 2]
   \<and> window (snapshotIndicesLimits (int 3 - 1) 2) 0 \<union> window (snapshotIndicesLimits (int 3 - 1) 2) 1
       \<noteq> {0..int 3 - 1}"
proof -
  have L: "snapshotIndicesLimits (int 3 - 1) 2 = [0, 1, 2]"
    by (simp add: snapshotIndicesLimits_def linspace_def Let_def np_round_def upt_rec
      fl_add_def fl_sub_def fl_mul_def fl_div_def round_binary64_zero round_binary64_one
      round_binary64_numeral)
  have "(2::int) \<notin> window [0, 1, 2] 0 \<union> window [0, 1, 2] 1"
    by (simp add: window_def)
  moreover have "(2::int) \<in> {0..int 3 - 1}" by simp
  ultimately have "window [0, 1, 2] 0 \<union> window [0, 1, 2] 1 \<noteq> {0..int 3 - 1}" by metis
  then show ?thesis unfolding L by simp
qed

subsection \<open>Comprehensions, decimal strings and array selection\<close>

lemma comprehension_Inr:
  "comprehension f xs = Inr ys \<Longrightarrow>
   length ys = length xs \<and> (\<forall>i<length xs. f (xs ! i) = Inr (ys ! i))"
proof (induction xs arbitrary: ys)
  case Nil
  then show ?case by simp
next
  case (Cons x xs)
  then obtain y ys' where y: "f x = Inr y" and r: "comprehension f xs = Inr ys'" and e: "ys = y # ys'"
    by (auto split: sum.splits)
  from Cons.IH[OF r] show ?case using y e by (auto simp: nth_Cons split: nat.splits)
qed

lemma comprehension_total:
  "(\<And>x. x \<in> set xs \<Longrightarrow> \<exists>y. f x = Inr y) \<Longrightarrow> \<exists>ys. comprehension f xs = Inr ys"
proof (induction xs)
  case Nil
  then show ?case by simp
next
  case (Cons x xs)
  then obtain y where "f x = Inr y" by force
  moreover obtain ys where "comprehension f xs = Inr ys" using Cons by force
  ultimately show ?case by simp
qed

lemma str_digit_inj:
  assumes "a < 10" "b < 10" "''0123456789'' ! a = ''0123456789'' ! b"
  shows "a = b"
proof -
  have "distinct ''0123456789''" by simp
  moreover have "a < length ''0123456789''" "b < length ''0123456789''" using assms by simp_all
  ultimately show ?thesis using assms(3) by (simp only: nth_eq_iff_index_eq)
qed

lemma str_nat_nonempty: "str_nat n \<noteq> []"
  by (subst str_nat.simps) simp

lemma str_nat_inj: "str_nat n = str_nat m \<Longrightarrow> n = m"
proof (induction n arbitrary: m rule: str_nat.induct)
  case (1 n)
  show ?case
  proof (cases "n < 10")
    case True
    note n = this
    show ?thesis
    proof (cases "m < 10")
      case True
      then show ?thesis using n "1.prems" str_digit_inj[of n m]
        by (simp add: str_nat.simps[of n] str_nat.simps[of m])
    next
      case False
      then show ?thesis using n "1.prems" str_nat_nonempty[of "m div 10"]
        by (simp add: str_nat.simps[of n] str_nat.simps[of m])
    qed
  next
    case False
    note n = this
    show ?thesis
    proof (cases "m < 10")
      case True
      then show ?thesis using n "1.prems" str_nat_nonempty[of "n div 10"]
        by (simp add: str_nat.simps[of n] str_nat.simps[of m])
    next
      case False
      then have e: "str_nat (n div 10) = str_nat (m div 10)"
        and d: "''0123456789'' ! (n mod 10) = ''0123456789'' ! (m mod 10)"
        using n "1.prems" by (simp_all add: str_nat.simps[of n] str_nat.simps[of m])
      have "n div 10 = m div 10" using "1.IH"[OF n e] .
      moreover have "n mod 10 = m mod 10" using str_digit_inj[OF _ _ d] by simp
      ultimately show ?thesis by (metis div_mult_mod_eq)
    qed
  qed
qed


lemma select_rows_Inr:
  assumes "select_rows A idx = Inr R"
  shows "shape0 R = length idx" "shape1 R = shape1 A" "cells R = map (\<lambda>i. cells A ! i) idx"
    "\<forall>i\<in>set idx. i < shape0 A"
  using assms unfolding select_rows_def by (auto split: if_splits simp: list_all_iff)

lemma select_cols_Inr:
  assumes "select_cols A cidx = Inr S"
  shows "shape0 S = shape0 A" "shape1 S = length cidx"
    "\<exists>js. comprehension (np_index (shape1 A)) cidx = Inr js
          \<and> cells S = map (\<lambda>r. map (\<lambda>j. r ! j) js) (cells A)"
  using assms unfolding select_cols_def by (auto split: sum.splits)

lemma np_index_nonneg: "0 \<le> i \<Longrightarrow> np_index n i = Inr j \<Longrightarrow> j = nat i \<and> i < int n"
  unfolding np_index_def by (auto split: if_splits)

lemma np_index_in_range: "0 \<le> i \<Longrightarrow> i < int n \<Longrightarrow> np_index n i = Inr (nat i)"
  unfolding np_index_def by simp

lemma select_cols_nonneg:
  assumes "select_cols A cidx = Inr S" and "\<forall>i\<in>set cidx. 0 \<le> i"
    and "r < length (cells A)" and "j < length cidx"
  shows "cells S ! r ! j = cells A ! r ! nat (cidx ! j)"
proof -
  obtain js where js: "comprehension (np_index (shape1 A)) cidx = Inr js"
    and c: "cells S = map (\<lambda>r. map (\<lambda>j. r ! j) js) (cells A)"
    using select_cols_Inr(3)[OF assms(1)] by blast
  have len: "length js = length cidx" and each: "np_index (shape1 A) (cidx ! j) = Inr (js ! j)"
    using comprehension_Inr[OF js] assms(4) by auto
  have "js ! j = nat (cidx ! j)"
    using np_index_nonneg[OF _ each] assms(2,4) by simp
  then show ?thesis using c assms(3,4) len by simp
qed

lemma select_cols_total:
  assumes "\<forall>i\<in>set cidx. 0 \<le> i \<and> i < int (shape1 A)"
  shows "\<exists>S. select_cols A cidx = Inr S"
proof -
  have "\<exists>js. comprehension (np_index (shape1 A)) cidx = Inr js"
    using assms by (intro comprehension_total) (auto simp: np_index_in_range)
  then show ?thesis unfolding select_cols_def by auto
qed

subsection \<open>The single-timepoint branch\<close>

lemma single_timepoint_Inr:
  assumes "single_timepoint env a outp P files = (Inr df, files')"
  shows "columns df = map (\<lambda>t. ''E'' @ str_nat (arg_cellid a) @ ''_'' @ str_nat t) [1..<shape1 P]"
    and "index df = arg_genelist a"
    and "\<forall>r<length (arg_rnaIndex a). \<forall>j<shape1 P - 1.
           vals df ! r ! j = cells P ! (arg_rnaIndex a ! r) ! (j + 1)"
    and "files' = files \<or>
         (\<exists>sdf. files' = [(outp @ ''E'' @ str_nat (arg_cellid a) @ ''-cell.csv'', sdf)] @ files)"
proof -
  obtain R where R: "select_rows P (arg_rnaIndex a) = Inr R"
    using assms unfolding single_timepoint_def by (auto split: sum.splits)
  obtain subs where S: "select_cols R (map int (timePoints P)) = Inr subs"
    using assms R unfolding single_timepoint_def by (auto split: sum.splits)
  let ?cols = "map (\<lambda>t. ''E'' @ str_nat (arg_cellid a) @ ''_'' @ str_nat t) (timePoints P)"
  have D: "DataFrame subs (arg_genelist a) ?cols = Inr df"
    using assms R S unfolding single_timepoint_def Let_def
    by (auto split: sum.splits if_splits)
  have df: "df = \<lparr>index = arg_genelist a, columns = ?cols, vals = cells subs\<rparr>"
    using D unfolding DataFrame_def by (auto split: if_splits)
  show "columns df = map (\<lambda>t. ''E'' @ str_nat (arg_cellid a) @ ''_'' @ str_nat t) [1..<shape1 P]"
    using df by (simp add: timePoints_def)
  show "index df = arg_genelist a" using df by simp
  show "\<forall>r<length (arg_rnaIndex a). \<forall>j<shape1 P - 1.
           vals df ! r ! j = cells P ! (arg_rnaIndex a ! r) ! (j + 1)"
  proof (intro allI impI)
    fix r j assume r: "r < length (arg_rnaIndex a)" and j: "j < shape1 P - 1"
    have cR: "cells R = map (\<lambda>i. cells P ! i) (arg_rnaIndex a)" by (rule select_rows_Inr(3)[OF R])
    have "cells subs ! r ! j = cells R ! r ! nat (map int (timePoints P) ! j)"
      using select_cols_nonneg[OF S, of r j] r j cR by (simp add: timePoints_def)
    also have "\<dots> = cells P ! (arg_rnaIndex a ! r) ! (j + 1)"
    proof -
      have "nat (1 + int j) = j + 1" by simp
      then show ?thesis using r j cR by (simp add: timePoints_def)
    qed
    finally show "vals df ! r ! j = cells P ! (arg_rnaIndex a ! r) ! (j + 1)" using df by simp
  qed
  show "files' = files \<or>
         (\<exists>sdf. files' = [(outp @ ''E'' @ str_nat (arg_cellid a) @ ''-cell.csv'', sdf)] @ files)"
    using assms R S D unfolding single_timepoint_def Let_def to_csv_def
    by (auto split: sum.splits if_splits)
qed

lemma single_timepoint_total:
  assumes R: "select_rows P (arg_rnaIndex a) = Inr R"
    and len: "length (arg_genelist a) = length (arg_rnaIndex a)"
    and smp: "arg_sampleCells a \<longrightarrow> (\<exists>s. sampleCellFromTraj env (arg_cellid a) P (arg_header a) = Inr s)"
  shows "\<exists>df files'. single_timepoint env a outp P files = (Inr df, files')"
proof -
  have "\<forall>i\<in>set (map int (timePoints P)). 0 \<le> i \<and> i < int (shape1 R)"
    using select_rows_Inr(2)[OF R] by (auto simp: timePoints_def)
  then obtain subs where S: "select_cols R (map int (timePoints P)) = Inr subs"
    using select_cols_total by blast
  have "shape0 subs = length (arg_rnaIndex a)" "shape1 subs = length (timePoints P)"
    using select_cols_Inr(1,2)[OF S] select_rows_Inr(1)[OF R] by simp_all
  then obtain df where
    "DataFrame subs (arg_genelist a)
       (map (\<lambda>t. ''E'' @ str_nat (arg_cellid a) @ ''_'' @ str_nat t) (timePoints P)) = Inr df"
    using len unfolding DataFrame_def by simp
  then show ?thesis using R S smp unfolding single_timepoint_def Let_def
    by (auto split: sum.splits)
qed

lemma accepted_nonempty:
  assumes "maxExp P idx = Inr m" and "wf_ndarray P"
  shows "1 \<le> shape1 P"
proof -
  obtain R where R: "select_rows P idx = Inr R" and a: "amax R = Inr m"
    using assms(1) unfolding maxExp_def by (auto split: sum.splits)
  obtain v vs where c: "concat (cells R) = v # vs"
    using a unfolding amax_def by (cases "concat (cells R)") auto
  have "v \<in> set (concat (cells R))" by (simp only: c list.set_intros)
  then obtain row where row: "row \<in> set (cells R)" "row \<noteq> []" by fastforce
  have "cells R = map (\<lambda>i. cells P ! i) idx" "\<forall>i\<in>set idx. i < shape0 P"
    using select_rows_Inr[OF R] by simp_all
  then obtain i where "i < shape0 P" "row = cells P ! i" using row(1) by auto
  then have "length row = shape1 P"
    using assms(2) unfolding wf_ndarray_def by (auto simp: list_all_iff)
  then show ?thesis using row(2) by (cases "shape1 P") auto
qed

lemma example_loop:
  "retry_loop (simulate example_env (arg_ss (example_args b n))) (arg_rnaIndex (example_args b n))
     (arg_x_max (example_args b n)) (arg_seed (example_args b n)) 0 = Some (Inr (example_high, 3))"
  using example_retry by (simp add: example_env_def example_args_def example_sim_def[abs_def])

lemma example_wf: "wf_ndarray example_high"
  by (simp add: wf_ndarray_def example_high_def)

lemma example_single:
  "simulateAndSample example_env (example_args False 0) [] =
     Some (Inr (), [(''out/simulations/E0.csv'',
        \<lparr>index = [''g''], columns = [''E0_1'', ''E0_2'', ''E0_3''], vals = map (map Finite) [[0.5, 1.5, 0.25]]\<rparr>)])"
  unfolding simulateAndSample_def example_loop
  by (simp add: sample_and_save_def single_timepoint_def example_args_def example_high_def
      select_rows_def select_cols_def np_index_def timePoints_def DataFrame_def to_csv_def
      path_join_def str_nat.simps upt_rec)

lemma simulateAndSample_loop:
  assumes "retry_loop (simulate env (arg_ss a)) (arg_rnaIndex a) (arg_x_max a) (arg_seed a) 0
             = Some (Inr (P, tries))"
  shows "simulateAndSample env a files = Some (sample_and_save env a P files)"
  unfolding simulateAndSample_def using assms by simp

text \<open>
  C3. With \<^verbatim>\<open>n_snapshots == 0\<close>, a job that completes has written to
  \<^verbatim>\<open>E{cellid}.csv\<close> a table with one column \<^verbatim>\<open>E{cellid}_{t}\<close> for each time index
  \<open>t = 1, ..., T - 1\<close> of the accepted trajectory (\<open>T\<close> its number of time points), so
  \<open>T - 1\<close> distinct columns, none of them for time index 0; column \<open>j\<close> holds every
  transcript's value at time index \<open>j + 1\<close>. The job does complete when the gene list has
  one name per transcript index and the sampling helper, if called, returns.
\<close>

theorem single_timepoint_table:
  assumes loop: "retry_loop (simulate env (arg_ss a)) (arg_rnaIndex a) (arg_x_max a) (arg_seed a) 0
                   = Some (Inr (P, tries))"
    and wf: "wf_ndarray P"
    and n0: "arg_n_snapshots a = 0"
  shows "(\<forall>files'. simulateAndSample env a files = Some (Inr (), files') \<longrightarrow>
           (\<exists>df rest.
              files' = (path_join (path_join (arg_outPrefix a) ''simulations'')
                                  (''E'' @ str_nat (arg_cellid a) @ ''.csv''), df) # rest
              \<and> columns df = map (\<lambda>t. ''E'' @ str_nat (arg_cellid a) @ ''_'' @ str_nat t)
                                  [1..<shape1 P]
              \<and> int (length (columns df)) = int (shape1 P) - 1
              \<and> distinct (columns df)
              \<and> ''E'' @ str_nat (arg_cellid a) @ ''_'' @ str_nat 0 \<notin> set (columns df)
              \<and> index df = arg_genelist a
              \<and> (\<forall>r<length (arg_rnaIndex a). \<forall>j<shape1 P - 1.
                    vals df ! r ! j = cells P ! (arg_rnaIndex a ! r) ! (j + 1))))
         \<and> (length (arg_genelist a) = length (arg_rnaIndex a)
              \<and> (arg_sampleCells a \<longrightarrow>
                    (\<exists>s. sampleCellFromTraj env (arg_cellid a) P (arg_header a) = Inr s))
            \<longrightarrow> (\<exists>files'. simulateAndSample env a files = Some (Inr (), files')))"
proof (intro conjI allI impI)
  fix files'
  assume ok: "simulateAndSample env a files = Some (Inr (), files')"
  let ?outp = "path_join (arg_outPrefix a) ''simulations''"
  have ss: "sample_and_save env a P files = (Inr (), files')"
    using ok simulateAndSample_loop[OF loop] by simp
  then obtain df files1 where st: "single_timepoint env a ?outp P files = (Inr df, files1)"
    and f: "files' = to_csv (path_join ?outp (''E'' @ str_nat (arg_cellid a) @ ''.csv'')) df files1"
    using n0 unfolding sample_and_save_def Let_def
    by (auto split: prod.splits sum.splits)
  obtain m where m: "maxExp P (arg_rnaIndex a) = Inr m"
    using retry_loop_accepts[OF loop] by blast
  have T: "1 \<le> shape1 P" by (rule accepted_nonempty[OF m wf])
  have cols: "columns df = map (\<lambda>t. ''E'' @ str_nat (arg_cellid a) @ ''_'' @ str_nat t) [1..<shape1 P]"
    by (rule single_timepoint_Inr(1)[OF st])
  have len: "int (length (columns df)) = int (shape1 P) - 1" using cols T by simp
  have inj: "inj (\<lambda>t. ''E'' @ str_nat (arg_cellid a) @ ''_'' @ str_nat t)"
    by (rule injI) (simp add: str_nat_inj)
  have dist: "distinct (columns df)" unfolding cols using inj
    by (simp add: distinct_map inj_on_subset[OF _ subset_UNIV])
  have no0: "''E'' @ str_nat (arg_cellid a) @ ''_'' @ str_nat 0 \<notin> set (columns df)"
    unfolding cols by (auto dest: str_nat_inj)
  show "\<exists>df rest.
              files' = (path_join (path_join (arg_outPrefix a) ''simulations'')
                                  (''E'' @ str_nat (arg_cellid a) @ ''.csv''), df) # rest
              \<and> columns df = map (\<lambda>t. ''E'' @ str_nat (arg_cellid a) @ ''_'' @ str_nat t)
                                  [1..<shape1 P]
              \<and> int (length (columns df)) = int (shape1 P) - 1
              \<and> distinct (columns df)
              \<and> ''E'' @ str_nat (arg_cellid a) @ ''_'' @ str_nat 0 \<notin> set (columns df)
              \<and> index df = arg_genelist a
              \<and> (\<forall>r<length (arg_rnaIndex a). \<forall>j<shape1 P - 1.
                    vals df ! r ! j = cells P ! (arg_rnaIndex a ! r) ! (j + 1))"
    using f cols len dist no0 single_timepoint_Inr(2,3)[OF st] unfolding to_csv_def by blast
next
  assume h: "length (arg_genelist a) = length (arg_rnaIndex a)
              \<and> (arg_sampleCells a \<longrightarrow>
                    (\<exists>s. sampleCellFromTraj env (arg_cellid a) P (arg_header a) = Inr s))"
  obtain m where m: "maxExp P (arg_rnaIndex a) = Inr m"
    using retry_loop_accepts[OF loop] by blast
  then obtain R where R: "select_rows P (arg_rnaIndex a) = Inr R"
    unfolding maxExp_def by (auto split: sum.splits)
  obtain df files1 where
    "single_timepoint env a (path_join (arg_outPrefix a) ''simulations'') P files = (Inr df, files1)"
    using single_timepoint_total[OF R] h by blast
  then have "\<exists>files'. sample_and_save env a P files = (Inr (), files')"
    using n0 unfolding sample_and_save_def Let_def by simp
  then show "\<exists>files'. simulateAndSample env a files = Some (Inr (), files')"
    using simulateAndSample_loop[OF loop] by simp
qed

theorem single_timepoint_table_witness:
  "retry_loop (simulate example_env (arg_ss (example_args False 0)))
      (arg_rnaIndex (example_args False 0)) (arg_x_max (example_args False 0))
      (arg_seed (example_args False 0)) 0 = Some (Inr (example_high, 3))
   \<and> wf_ndarray example_high
   \<and> arg_n_snapshots (example_args False 0) = 0
   \<and> simulateAndSample example_env (example_args False 0) [] =
        Some (Inr (), [(''out/simulations/E0.csv'',
          \<lparr>index = [''g''], columns = [''E0_1'', ''E0_2'', ''E0_3''], vals = map (map Finite) [[0.5, 1.5, 0.25]]\<rparr>)])
   \<and> (\<exists>df rest.
         [(''out/simulations/E0.csv'',
           \<lparr>index = [''g''], columns = [''E0_1'', ''E0_2'', ''E0_3''], vals = map (map Finite) [[0.5, 1.5, 0.25]]\<rparr>)]
           = (path_join (path_join (arg_outPrefix (example_args False 0)) ''simulations'')
                 (''E'' @ str_nat (arg_cellid (example_args False 0)) @ ''.csv''), df) # rest
         \<and> int (length (columns df)) = int (shape1 example_high) - 1
         \<and> distinct (columns df))"
proof -
  have n0: "arg_n_snapshots (example_args False 0) = 0" by (simp add: example_args_def)
  show ?thesis
    using single_timepoint_table[OF example_loop example_wf n0, of "[]"]
      example_loop[of False 0] example_wf n0 example_single
    by blast
qed

subsection \<open>The snapshot branch\<close>

lemma snapshotIndices_Inr:
  assumes "snapshotIndices raw limits n = Inr inds"
  shows "length inds = n"
    and "\<forall>i<n. limits ! i < limits ! (i + 1)
            \<and> inds ! i = limits ! i + int (raw i mod nat (limits ! (i + 1) - limits ! i))
            \<and> inds ! i \<in> window limits i"
proof -
  have c: "length inds = length [0..<n]"
    "\<forall>i<length [0..<n]. randint (raw ([0..<n] ! i)) (limits ! ([0..<n] ! i))
        (limits ! (([0..<n] ! i) + 1)) = Inr (inds ! i)"
    using comprehension_Inr[OF assms[unfolded snapshotIndices_def]] by simp_all
  show "length inds = n" using c(1) by simp
  show "\<forall>i<n. limits ! i < limits ! (i + 1)
            \<and> inds ! i = limits ! i + int (raw i mod nat (limits ! (i + 1) - limits ! i))
            \<and> inds ! i \<in> window limits i"
  proof (intro allI impI)
    fix i assume i: "i < n"
    then have r: "randint (raw i) (limits ! i) (limits ! (i + 1)) = Inr (inds ! i)"
      using c(2) by simp
    then have lt: "limits ! i < limits ! (i + 1)"
      and v: "inds ! i = limits ! i + int (raw i mod nat (limits ! (i + 1) - limits ! i))"
      unfolding randint_def by (auto split: if_splits)
    have "inds ! i \<in> {limits ! i..<limits ! (i + 1)}"
      using r randint_range[of "limits ! i" "limits ! (i + 1)" "inds ! i"] by blast
    then show "limits ! i < limits ! (i + 1)
            \<and> inds ! i = limits ! i + int (raw i mod nat (limits ! (i + 1) - limits ! i))
            \<and> inds ! i \<in> window limits i"
      using lt v by (simp add: window_def)
  qed
qed

lemma snapshotIndices_total:
  assumes "\<forall>i<n. limits ! i < limits ! (i + 1)"
  shows "\<exists>inds. snapshotIndices raw limits n = Inr inds"
  unfolding snapshotIndices_def
  using assms by (intro comprehension_total) (auto simp: randint_def)

text \<open>
  The grid points without a condition on the number of time points: none is negative,
  and the last one is the number of steps.
\<close>

lemma linspace_nonneg:
  assumes "0 \<le> b" and "i < num"
  shows "0 \<le> linspace 0 b num ! i"
proof -
  let ?delta = "fl_sub (round_binary64 b) (round_binary64 0)"
  let ?dv = "round_binary64 (real (num - 1))"
  let ?step = "fl_div ?delta ?dv"
  have b0: "0 \<le> round_binary64 b" using assms(1) by (rule round_binary64_nonneg)
  have d0: "0 \<le> ?delta"
    unfolding fl_sub_def round_binary64_zero using b0 by (intro round_binary64_nonneg) simp
  have v0: "0 \<le> ?dv" by (intro round_binary64_nonneg) simp
  have s0: "0 \<le> ?step" unfolding fl_div_def using d0 v0 by (intro round_binary64_nonneg) simp
  have y0: "0 \<le> round_binary64 (real j)" for j by (intro round_binary64_nonneg) simp
  have p1: "0 \<le> fl_mul (round_binary64 (real j)) ?step" for j
    unfolding fl_mul_def using y0 s0 by (intro round_binary64_nonneg) simp
  have p2: "0 \<le> fl_mul (fl_div (round_binary64 (real j)) ?dv) ?delta" for j
  proof -
    have "0 \<le> fl_div (round_binary64 (real j)) ?dv"
      unfolding fl_div_def using y0 v0 by (intro round_binary64_nonneg) simp
    then show ?thesis unfolding fl_mul_def using d0 by (intro round_binary64_nonneg) simp
  qed
  have pt: "0 \<le> fl_add (if ?step = 0 then fl_mul (fl_div (round_binary64 (real j)) ?dv) ?delta
                          else fl_mul (round_binary64 (real j)) ?step) (round_binary64 0)" for j
    using p1[of j] p2[of j] unfolding fl_add_def round_binary64_zero
    by (intro round_binary64_nonneg) simp
  have one: "0 \<le> fl_add (fl_mul 0 ?delta) (round_binary64 0)"
    by (simp add: fl_add_def fl_mul_def round_binary64_zero)
  show ?thesis
  proof (cases "num = 1")
    case True
    then show ?thesis using one assms(2) by (simp add: linspace_def Let_def)
  next
    case False
    then have n2: "2 \<le> num" using assms(2) by simp
    show ?thesis
    proof (cases "i < num - 1")
      case True
      then have "linspace 0 b num ! i =
          fl_add (if ?step = 0 then fl_mul (fl_div (round_binary64 (real i)) ?dv) ?delta
                  else fl_mul (round_binary64 (real i)) ?step) (round_binary64 0)"
        using n2 by (simp add: linspace_def Let_def nth_append)
      then show ?thesis using pt[of i] by (simp only:)
    next
      case False
      then have "i = num - 1" using assms(2) by simp
      then show ?thesis using n2 b0 by (simp add: linspace_def Let_def nth_append)
    qed
  qed
qed

lemma limits_nonneg:
  assumes "0 \<le> steps" and "i \<le> n"
  shows "0 \<le> snapshotIndicesLimits steps n ! i"
proof -
  have "0 \<le> linspace 0 (real_of_int steps) (n + 1) ! i"
    using assms by (intro linspace_nonneg) simp_all
  then have "np_round 0 \<le> np_round (linspace 0 (real_of_int steps) (n + 1) ! i)"
    by (rule np_round_mono)
  then show ?thesis using assms(2) np_round_of_int[of 0]
    by (simp add: snapshotIndicesLimits_def length_linspace del: of_nat_add)
qed

lemma limits_end:
  assumes "0 < n" and "0 \<le> steps" and "steps \<le> 2 ^ 53"
  shows "snapshotIndicesLimits steps n ! n = steps"
proof -
  have b: "round_binary64 (of_int steps) = of_int steps"
    using assms(2,3) by (rule round_binary64_of_int)
  have "linspace 0 (real_of_int steps) (n + 1) ! n = of_int steps"
    using assms(1) by (simp add: linspace_def Let_def nth_append b)
  then show ?thesis using np_round_of_int[of steps]
    by (simp add: snapshotIndicesLimits_def length_linspace del: of_nat_add)
qed

text \<open>With no time point at all the first window is empty.\<close>

lemma limits_negative:
  assumes "0 < n" and "steps < 0"
  shows "snapshotIndicesLimits steps n ! 1 \<le> snapshotIndicesLimits steps n ! 0"
proof -
  let ?b = "round_binary64 (real_of_int steps)"
  let ?delta = "fl_sub ?b (round_binary64 0)"
  let ?dv = "round_binary64 (real n)"
  let ?step = "fl_div ?delta ?dv"
  have b0: "?b \<le> 0" using assms(2) by (intro round_binary64_nonpos) simp
  have d0: "?delta \<le> 0"
    unfolding fl_sub_def round_binary64_zero using b0 by (intro round_binary64_nonpos) simp
  have v0: "0 \<le> ?dv" by (intro round_binary64_nonneg) simp
  have s0: "?step \<le> 0"
    unfolding fl_div_def using d0 v0 by (intro round_binary64_nonpos) (simp add: divide_le_0_iff)
  have y0: "0 \<le> round_binary64 (real j)" for j by (intro round_binary64_nonneg) simp
  have p1: "fl_mul (round_binary64 (real j)) ?step \<le> 0" for j
    unfolding fl_mul_def using y0[of j] s0
    by (intro round_binary64_nonpos) (simp add: mult_le_0_iff)
  have p2: "fl_mul (fl_div (round_binary64 (real j)) ?dv) ?delta \<le> 0" for j
  proof -
    have "0 \<le> fl_div (round_binary64 (real j)) ?dv"
      unfolding fl_div_def using y0 v0 by (intro round_binary64_nonneg) simp
    then show ?thesis
      unfolding fl_mul_def using d0 by (intro round_binary64_nonpos) (simp add: mult_le_0_iff)
  qed
  have pt: "fl_add (if ?step = 0 then fl_mul (fl_div (round_binary64 (real j)) ?dv) ?delta
                    else fl_mul (round_binary64 (real j)) ?step) (round_binary64 0) \<le> 0" for j
    using p1[of j] p2[of j] unfolding fl_add_def round_binary64_zero
    by (intro round_binary64_nonpos) simp
  have z: "linspace 0 (real_of_int steps) (n + 1) ! 0 = 0"
    using assms(1)
    by (simp add: linspace_def Let_def nth_append upt_rec fl_add_def fl_mul_def fl_div_def
        round_binary64_zero)
  have "linspace 0 (real_of_int steps) (n + 1) ! 1 \<le> 0"
  proof (cases "n = 1")
    case True
    then show ?thesis using b0 by (simp add: linspace_def Let_def)
  next
    case False
    then have "1 < n" using assms(1) by simp
    then have "linspace 0 (real_of_int steps) (n + 1) ! 1 =
        fl_add (if ?step = 0 then fl_mul (fl_div (round_binary64 (real 1)) ?dv) ?delta
                else fl_mul (round_binary64 (real 1)) ?step) (round_binary64 0)"
      by (simp add: linspace_def Let_def nth_append)
    then show ?thesis using pt[of 1] by (simp only:)
  qed
  then have "np_round (linspace 0 (real_of_int steps) (n + 1) ! 1)
               \<le> np_round (linspace 0 (real_of_int steps) (n + 1) ! 0)"
    unfolding z by (rule np_round_mono)
  then show ?thesis using assms(1)
    by (simp add: snapshotIndicesLimits_def length_linspace del: of_nat_add)
qed

lemma limits_chain:
  assumes "\<forall>i<n. (L :: int list) ! i < L ! (i + 1)" and "i \<le> j" and "j \<le> n"
  shows "L ! i \<le> L ! j"
  using assms(2,3)
proof (induction j)
  case 0
  then show ?case by simp
next
  case (Suc j)
  show ?case
  proof (cases "i = Suc j")
    case True
    then show ?thesis by simp
  next
    case False
    then have ij: "i \<le> j" and jn: "j < n" using Suc.prems by simp_all
    have "L ! i \<le> L ! j" using Suc.IH[OF ij] jn by simp
    also have "\<dots> < L ! (j + 1)" using assms(1) jn by simp
    finally show ?thesis by simp
  qed
qed

lemma snapshots_Inr:
  assumes ok: "snapshots env a P = Inr df" and n: "0 < arg_n_snapshots a"
  shows "\<exists>inds.
          snapshotIndices (randint_raw env (arg_cellid a))
              (snapshotIndicesLimits (int (shape1 P) - 1) (arg_n_snapshots a))
              (arg_n_snapshots a) = Inr inds
          \<and> length inds = arg_n_snapshots a
          \<and> (\<forall>i<arg_n_snapshots a. 0 \<le> inds ! i \<and> inds ! i < int (shape1 P))
          \<and> columns df = map (\<lambda>i. ''E'' @ str_nat (arg_cellid a) @ ''_t'' @ str_nat i)
                              [0..<arg_n_snapshots a]
          \<and> index df = arg_genelist a
          \<and> (\<forall>r<length (arg_rnaIndex a). \<forall>i<arg_n_snapshots a.
                 vals df ! r ! i = cells P ! (arg_rnaIndex a ! r) ! nat (inds ! i))"
proof -
  let ?n = "arg_n_snapshots a"
  let ?L = "snapshotIndicesLimits (int (shape1 P) - 1) ?n"
  let ?cols = "map (\<lambda>i. ''E'' @ str_nat (arg_cellid a) @ ''_t'' @ str_nat i) [0..<?n]"
  obtain inds where I: "snapshotIndices (randint_raw env (arg_cellid a)) ?L ?n = Inr inds"
    using ok unfolding snapshots_def Let_def by (auto split: sum.splits)
  obtain R where R: "select_rows P (arg_rnaIndex a) = Inr R"
    using ok I unfolding snapshots_def Let_def by (auto split: sum.splits)
  obtain subs where S: "select_cols R inds = Inr subs"
    using ok I R unfolding snapshots_def Let_def by (auto split: sum.splits)
  have D: "DataFrame subs (arg_genelist a) ?cols = Inr df"
    using ok I R S unfolding snapshots_def Let_def by simp
  have df: "df = \<lparr>index = arg_genelist a, columns = ?cols, vals = cells subs\<rparr>"
    using D unfolding DataFrame_def by (auto split: if_splits)
  have len: "length inds = ?n" by (rule snapshotIndices_Inr(1)[OF I])
  have win: "\<forall>i<?n. ?L ! i < ?L ! (i + 1) \<and> inds ! i \<in> window ?L i"
    using snapshotIndices_Inr(2)[OF I] by blast
  have s: "0 \<le> int (shape1 P) - 1"
  proof (rule ccontr)
    assume "\<not> 0 \<le> int (shape1 P) - 1"
    then have "int (shape1 P) - 1 < 0" by simp
    then have "?L ! 1 \<le> ?L ! 0" by (rule limits_negative[OF n])
    then show False using win n by auto
  qed
  have lo: "\<forall>i<?n. 0 \<le> inds ! i"
  proof (intro allI impI)
    fix i assume i: "i < ?n"
    have "0 \<le> ?L ! i" using i by (intro limits_nonneg[OF s]) simp
    then show "0 \<le> inds ! i" using win i by (auto simp: window_def)
  qed
  have nonneg: "\<forall>i\<in>set inds. 0 \<le> i"
    using lo len by (auto simp: in_set_conv_nth)
  obtain js where js: "comprehension (np_index (shape1 R)) inds = Inr js"
    using select_cols_Inr(3)[OF S] by blast
  have hi: "\<forall>i<?n. inds ! i < int (shape1 P)"
  proof (intro allI impI)
    fix i assume i: "i < ?n"
    then have "np_index (shape1 R) (inds ! i) = Inr (js ! i)"
      using comprehension_Inr[OF js] len by simp
    then have "inds ! i < int (shape1 R)" using np_index_nonneg[of "inds ! i"] lo i by blast
    then show "inds ! i < int (shape1 P)" using select_rows_Inr(2)[OF R] by simp
  qed
  have cR: "cells R = map (\<lambda>i. cells P ! i) (arg_rnaIndex a)" by (rule select_rows_Inr(3)[OF R])
  have v: "\<forall>r<length (arg_rnaIndex a). \<forall>i<?n.
             vals df ! r ! i = cells P ! (arg_rnaIndex a ! r) ! nat (inds ! i)"
  proof (intro allI impI)
    fix r i assume r: "r < length (arg_rnaIndex a)" and i: "i < ?n"
    have "cells subs ! r ! i = cells R ! r ! nat (inds ! i)"
      using select_cols_nonneg[OF S nonneg, of r i] r i cR len by simp
    then show "vals df ! r ! i = cells P ! (arg_rnaIndex a ! r) ! nat (inds ! i)"
      using df cR r by simp
  qed
  show ?thesis using I len lo hi df v by (intro exI[of _ inds]) simp
qed

lemma snapshots_total:
  assumes n: "0 < arg_n_snapshots a"
    and w: "\<forall>i<arg_n_snapshots a.
              snapshotIndicesLimits (int (shape1 P) - 1) (arg_n_snapshots a) ! i
                < snapshotIndicesLimits (int (shape1 P) - 1) (arg_n_snapshots a) ! (i + 1)"
    and T: "shape1 P \<le> 2 ^ 53"
    and R: "select_rows P (arg_rnaIndex a) = Inr R"
    and g: "length (arg_genelist a) = length (arg_rnaIndex a)"
  shows "\<exists>df. snapshots env a P = Inr df"
proof -
  let ?n = "arg_n_snapshots a"
  let ?L = "snapshotIndicesLimits (int (shape1 P) - 1) ?n"
  have s: "0 \<le> int (shape1 P) - 1"
  proof (rule ccontr)
    assume "\<not> 0 \<le> int (shape1 P) - 1"
    then have "int (shape1 P) - 1 < 0" by simp
    then have "?L ! 1 \<le> ?L ! 0" by (rule limits_negative[OF n])
    then show False using w n by auto
  qed
  have "int (shape1 P) \<le> int (2 ^ 53)" using T by (simp only: of_nat_le_iff)
  then have s53: "int (shape1 P) - 1 \<le> 2 ^ 53" by simp
  have last: "?L ! ?n = int (shape1 P) - 1" by (rule limits_end[OF n s s53])
  obtain inds where I: "snapshotIndices (randint_raw env (arg_cellid a)) ?L ?n = Inr inds"
    using snapshotIndices_total[OF w] by blast
  have len: "length inds = ?n" by (rule snapshotIndices_Inr(1)[OF I])
  have win: "\<forall>i<?n. inds ! i \<in> window ?L i"
    using snapshotIndices_Inr(2)[OF I] by blast
  have bnd: "\<forall>i<?n. 0 \<le> inds ! i \<and> inds ! i < int (shape1 P)"
  proof (intro allI impI)
    fix i assume i: "i < ?n"
    have lo: "0 \<le> ?L ! i" using i by (intro limits_nonneg[OF s]) simp
    have "?L ! (i + 1) \<le> ?L ! ?n" using i by (intro limits_chain[OF w]) simp_all
    then have "?L ! (i + 1) \<le> int (shape1 P) - 1" using last by simp
    then show "0 \<le> inds ! i \<and> inds ! i < int (shape1 P)"
      using lo win i by (auto simp: window_def)
  qed
  have "\<forall>i\<in>set inds. 0 \<le> i \<and> i < int (shape1 R)"
    using bnd len select_rows_Inr(2)[OF R] by (force simp: in_set_conv_nth)
  then obtain subs where S: "select_cols R inds = Inr subs"
    using select_cols_total by blast
  have "shape0 subs = length (arg_rnaIndex a)" "shape1 subs = ?n"
    using select_cols_Inr(1,2)[OF S] select_rows_Inr(1)[OF R] len by simp_all
  then obtain df where
    "DataFrame subs (arg_genelist a)
       (map (\<lambda>i. ''E'' @ str_nat (arg_cellid a) @ ''_t'' @ str_nat i) [0..<?n]) = Inr df"
    using g unfolding DataFrame_def by simp
  then show ?thesis using I R S unfolding snapshots_def Let_def by simp
qed

text \<open>
  C4. With \<^verbatim>\<open>n_snapshots = n \<ge> 1\<close>, a job that completes has written to
  \<^verbatim>\<open>E{cellid}.csv\<close> a table with exactly \<open>n\<close> columns, named \<^verbatim>\<open>E{cellid}_t0\<close> to
  \<^verbatim>\<open>E{cellid}_t{n-1}\<close>; column \<open>i\<close> holds every transcript's value at the one time
  index that \<^verbatim>\<open>np.random.randint(limits[i], limits[i+1])\<close> returned for window \<open>i\<close>,
  where \<open>limits\<close> is the grid computed in doubles: an index of the trajectory, at least
  \<open>limits[i]\<close> and below \<open>limits[i+1]\<close>. The job does complete when the trajectory
  has at least \<open>n + 1\<close> and at most \<open>2^53\<close> time points, there are at most \<open>2^24\<close>
  snapshots and the gene list has one name per transcript index.
\<close>

theorem snapshots_table:
  assumes loop: "retry_loop (simulate env (arg_ss a)) (arg_rnaIndex a) (arg_x_max a) (arg_seed a) 0
                   = Some (Inr (P, tries))"
    and n: "1 \<le> arg_n_snapshots a"
  shows "(\<forall>files'. simulateAndSample env a files = Some (Inr (), files') \<longrightarrow>
           (\<exists>df inds.
              files' = (path_join (path_join (arg_outPrefix a) ''simulations'')
                                  (''E'' @ str_nat (arg_cellid a) @ ''.csv''), df) # files
              \<and> columns df = map (\<lambda>i. ''E'' @ str_nat (arg_cellid a) @ ''_t'' @ str_nat i)
                                  [0..<arg_n_snapshots a]
              \<and> length (columns df) = arg_n_snapshots a
              \<and> index df = arg_genelist a
              \<and> snapshotIndices (randint_raw env (arg_cellid a))
                    (snapshotIndicesLimits (int (shape1 P) - 1) (arg_n_snapshots a))
                    (arg_n_snapshots a) = Inr inds
              \<and> length inds = arg_n_snapshots a
              \<and> (\<forall>i<arg_n_snapshots a.
                    randint (randint_raw env (arg_cellid a) i)
                       (snapshotIndicesLimits (int (shape1 P) - 1) (arg_n_snapshots a) ! i)
                       (snapshotIndicesLimits (int (shape1 P) - 1) (arg_n_snapshots a) ! (i + 1))
                      = Inr (inds ! i)
                    \<and> inds ! i \<in> window (snapshotIndicesLimits (int (shape1 P) - 1)
                                            (arg_n_snapshots a)) i
                    \<and> 0 \<le> inds ! i \<and> inds ! i < int (shape1 P))
              \<and> (\<forall>r<length (arg_rnaIndex a). \<forall>i<arg_n_snapshots a.
                    vals df ! r ! i = cells P ! (arg_rnaIndex a ! r) ! nat (inds ! i))))
         \<and> (arg_n_snapshots a + 1 \<le> shape1 P
              \<and> shape1 P \<le> 2 ^ 53
              \<and> arg_n_snapshots a \<le> 2 ^ 24
              \<and> length (arg_genelist a) = length (arg_rnaIndex a)
            \<longrightarrow> (\<exists>files'. simulateAndSample env a files = Some (Inr (), files')))"
proof (intro conjI allI impI)
  fix files'
  let ?n = "arg_n_snapshots a"
  let ?L = "snapshotIndicesLimits (int (shape1 P) - 1) ?n"
  assume ok: "simulateAndSample env a files = Some (Inr (), files')"
  have n0: "?n \<noteq> 0" "0 < ?n" using n by simp_all
  have ss: "sample_and_save env a P files = (Inr (), files')"
    using ok simulateAndSample_loop[OF loop] by simp
  then obtain df where sn: "snapshots env a P = Inr df"
    and f: "files' = to_csv (path_join (path_join (arg_outPrefix a) ''simulations'')
                               (''E'' @ str_nat (arg_cellid a) @ ''.csv'')) df files"
    using n0 unfolding sample_and_save_def Let_def
    by (auto split: prod.splits sum.splits)
  obtain inds where inds:
    "snapshotIndices (randint_raw env (arg_cellid a)) ?L ?n = Inr inds"
    "length inds = ?n"
    "\<forall>i<?n. 0 \<le> inds ! i \<and> inds ! i < int (shape1 P)"
    "columns df = map (\<lambda>i. ''E'' @ str_nat (arg_cellid a) @ ''_t'' @ str_nat i) [0..<?n]"
    "index df = arg_genelist a"
    "\<forall>r<length (arg_rnaIndex a). \<forall>i<?n.
        vals df ! r ! i = cells P ! (arg_rnaIndex a ! r) ! nat (inds ! i)"
    using snapshots_Inr[OF sn n0(2)] by blast
  have lc: "length (columns df) = ?n" using inds(4) by simp
  have draw: "\<forall>i<?n. randint (randint_raw env (arg_cellid a) i) (?L ! i) (?L ! (i + 1))
                        = Inr (inds ! i)
                    \<and> inds ! i \<in> window ?L i
                    \<and> 0 \<le> inds ! i \<and> inds ! i < int (shape1 P)"
  proof (intro allI impI)
    fix i assume i: "i < ?n"
    have "?L ! i < ?L ! (i + 1)"
      and "inds ! i = ?L ! i
             + int (randint_raw env (arg_cellid a) i mod nat (?L ! (i + 1) - ?L ! i))"
      and w: "inds ! i \<in> window ?L i"
      using snapshotIndices_Inr(2)[OF inds(1)] i by blast+
    then have "randint (randint_raw env (arg_cellid a) i) (?L ! i) (?L ! (i + 1)) = Inr (inds ! i)"
      unfolding randint_def by simp
    then show "randint (randint_raw env (arg_cellid a) i) (?L ! i) (?L ! (i + 1))
                        = Inr (inds ! i)
                    \<and> inds ! i \<in> window ?L i
                    \<and> 0 \<le> inds ! i \<and> inds ! i < int (shape1 P)"
      using w inds(3) i by simp
  qed
  have fl: "files' = (path_join (path_join (arg_outPrefix a) ''simulations'')
                                  (''E'' @ str_nat (arg_cellid a) @ ''.csv''), df) # files"
    using f unfolding to_csv_def by simp
  show "\<exists>df inds.
              files' = (path_join (path_join (arg_outPrefix a) ''simulations'')
                                  (''E'' @ str_nat (arg_cellid a) @ ''.csv''), df) # files
              \<and> columns df = map (\<lambda>i. ''E'' @ str_nat (arg_cellid a) @ ''_t'' @ str_nat i)
                                  [0..<?n]
              \<and> length (columns df) = ?n
              \<and> index df = arg_genelist a
              \<and> snapshotIndices (randint_raw env (arg_cellid a)) ?L ?n = Inr inds
              \<and> length inds = ?n
              \<and> (\<forall>i<?n.
                    randint (randint_raw env (arg_cellid a) i) (?L ! i) (?L ! (i + 1))
                      = Inr (inds ! i)
                    \<and> inds ! i \<in> window ?L i
                    \<and> 0 \<le> inds ! i \<and> inds ! i < int (shape1 P))
              \<and> (\<forall>r<length (arg_rnaIndex a). \<forall>i<?n.
                    vals df ! r ! i = cells P ! (arg_rnaIndex a ! r) ! nat (inds ! i))"
    using fl inds(4) lc inds(5) inds(1) inds(2) draw inds(6)
    by (intro exI[of _ df] exI[of _ inds] conjI)
next
  let ?n = "arg_n_snapshots a"
  let ?L = "snapshotIndicesLimits (int (shape1 P) - 1) ?n"
  assume h: "?n + 1 \<le> shape1 P
              \<and> shape1 P \<le> 2 ^ 53
              \<and> ?n \<le> 2 ^ 24
              \<and> length (arg_genelist a) = length (arg_rnaIndex a)"
  have n0: "?n \<noteq> 0" "0 < ?n" using n by simp_all
  have ns: "int ?n \<le> int (shape1 P) - 1" using h by simp
  have "int (shape1 P) \<le> int (2 ^ 53)" using h by (simp only: of_nat_le_iff)
  then have s53: "int (shape1 P) - 1 \<le> 2 ^ 53" by simp
  have n24: "?n \<le> 2 ^ 24" using h by simp
  have w: "\<forall>i<?n. ?L ! i < ?L ! (i + 1)"
    using limits_strict[OF n0(2) ns s53 n24] by blast
  obtain m where m: "maxExp P (arg_rnaIndex a) = Inr m"
    using retry_loop_accepts[OF loop] by blast
  then obtain R where R: "select_rows P (arg_rnaIndex a) = Inr R"
    unfolding maxExp_def by (auto split: sum.splits)
  obtain df where "snapshots env a P = Inr df"
    using snapshots_total[OF n0(2) w _ R] h by blast
  then have "\<exists>files'. sample_and_save env a P files = (Inr (), files')"
    using n0 unfolding sample_and_save_def Let_def by simp
  then show "\<exists>files'. simulateAndSample env a files = Some (Inr (), files')"
    using simulateAndSample_loop[OF loop] by simp
qed

lemma round_binary64_3_2: "round_binary64 (3 / 2) = 3 / 2"
  using round_binary64_scaled[of 52 "3 / 2"] by (simp add: np_round_def)

lemma example_limits: "snapshotIndicesLimits 3 2 = [0, 2, 3]"
  by (simp add: snapshotIndicesLimits_def linspace_def Let_def np_round_def upt_rec
      fl_add_def fl_sub_def fl_mul_def fl_div_def round_binary64_zero round_binary64_one
      round_binary64_numeral round_binary64_3_2)

lemma example_snapshots:
  "simulateAndSample example_env (example_args False 2) [] =
     Some (Inr (), [(''out/simulations/E0.csv'',
        \<lparr>index = [''g''], columns = [''E0_t0'', ''E0_t1''], vals = map (map Finite) [[1, 1.5]]\<rparr>)])"
  unfolding simulateAndSample_def example_loop
  by (simp add: sample_and_save_def snapshots_def snapshotIndices_def randint_def example_limits
      example_args_def example_env_def example_high_def
      select_rows_def select_cols_def np_index_def DataFrame_def to_csv_def
      path_join_def str_nat.simps upt_rec)

theorem snapshots_table_witness:
  "retry_loop (simulate example_env (arg_ss (example_args False 2)))
      (arg_rnaIndex (example_args False 2)) (arg_x_max (example_args False 2))
      (arg_seed (example_args False 2)) 0 = Some (Inr (example_high, 3))
   \<and> 1 \<le> arg_n_snapshots (example_args False 2)
   \<and> snapshotIndicesLimits (int (shape1 example_high) - 1) 2 = [0, 2, 3]
   \<and> arg_n_snapshots (example_args False 2) + 1 \<le> shape1 example_high
   \<and> shape1 example_high \<le> 2 ^ 53
   \<and> arg_n_snapshots (example_args False 2) \<le> 2 ^ 24
   \<and> length (arg_genelist (example_args False 2)) = length (arg_rnaIndex (example_args False 2))
   \<and> simulateAndSample example_env (example_args False 2) [] =
        Some (Inr (), [(''out/simulations/E0.csv'',
          \<lparr>index = [''g''], columns = [''E0_t0'', ''E0_t1''], vals = map (map Finite) [[1, 1.5]]\<rparr>)])
   \<and> (\<exists>df inds.
         [(''out/simulations/E0.csv'',
           \<lparr>index = [''g''], columns = [''E0_t0'', ''E0_t1''], vals = map (map Finite) [[1, 1.5]]\<rparr>)]
           = (path_join (path_join (arg_outPrefix (example_args False 2)) ''simulations'')
                 (''E'' @ str_nat (arg_cellid (example_args False 2)) @ ''.csv''), df) # []
         \<and> length (columns df) = arg_n_snapshots (example_args False 2)
         \<and> snapshotIndices (randint_raw example_env (arg_cellid (example_args False 2)))
              (snapshotIndicesLimits (int (shape1 example_high) - 1)
                 (arg_n_snapshots (example_args False 2)))
              (arg_n_snapshots (example_args False 2)) = Inr inds)"
proof -
  have n: "1 \<le> arg_n_snapshots (example_args False 2)" by (simp add: example_args_def)
  have L: "snapshotIndicesLimits (int (shape1 example_high) - 1) 2 = [0, 2, 3]"
    using example_limits by (simp add: example_high_def)
  have s: "shape1 example_high \<le> 2 ^ 53" by (simp add: example_high_def)
  have t: "arg_n_snapshots (example_args False 2) + 1 \<le> shape1 example_high"
    "arg_n_snapshots (example_args False 2) \<le> 2 ^ 24"
    by (simp_all add: example_args_def example_high_def)
  have g: "length (arg_genelist (example_args False 2))
             = length (arg_rnaIndex (example_args False 2))"
    by (simp add: example_args_def)
  show ?thesis
    using snapshots_table[OF example_loop n, of "[]"] example_loop[of False 2] n L s t g
      example_snapshots
    by blast
qed

subsection \<open>The initial-condition base vector\<close>

lemma fold_enumerate_assign:
  fixes g :: "'a \<Rightarrow> 'b option"
  assumes "j < length ss0"
  shows "length (fold (\<lambda>(i, k) ss. case g k of None \<Rightarrow> ss | Some v \<Rightarrow> ss[i := v]) (enumerate n xs) ss0)
           = length ss0
       \<and> fold (\<lambda>(i, k) ss. case g k of None \<Rightarrow> ss | Some v \<Rightarrow> ss[i := v]) (enumerate n xs) ss0 ! j
           = (if n \<le> j \<and> j < n + length xs
              then (case g (xs ! (j - n)) of None \<Rightarrow> ss0 ! j | Some v \<Rightarrow> v)
              else ss0 ! j)"
  using assms
proof (induction xs arbitrary: n ss0)
  case Nil
  then show ?case by auto
next
  case (Cons x xs)
  let ?s1 = "case g x of None \<Rightarrow> ss0 | Some v \<Rightarrow> ss0[n := v]"
  have l1: "length ?s1 = length ss0" by (simp split: option.splits)
  then have j1: "j < length ?s1" using Cons.prems by simp
  note IH = Cons.IH[OF j1, of "Suc n"]
  show ?case
  proof (cases "j = n")
    case True
    then show ?thesis using IH l1 Cons.prems by (auto split: option.splits)
  next
    case False
    then have "?s1 ! j = ss0 ! j" by (simp split: option.splits)
    moreover have "n \<le> j \<and> j < n + length (x # xs) \<longleftrightarrow> Suc n \<le> j \<and> j < Suc n + length xs"
      using False by auto
    moreover have "Suc n \<le> j \<Longrightarrow> (x # xs) ! (j - n) = xs ! (j - Suc n)"
      by (simp add: Suc_diff_le)
    ultimately show ?thesis using IH l1 by (auto simp del: nth_Cons_Suc split: option.splits)
  qed
qed

lemma ss_defaults_fold:
  "ss_defaults mg =
     fold (\<lambda>(i, k) ss. case default_of (proteinlist mg) k of None \<Rightarrow> ss | Some v \<Rightarrow> ss[i := v])
          (enumerate 0 (varmapper mg)) (replicate (length (varmapper mg)) 0)"
proof -
  have "(\<lambda>(i, k) ss.
             if sublist ''x_'' k then ss[i := 1.0]
             else if sublist ''p_'' k
                  then (if replace_p k \<in> set (proteinlist mg) then ss[i := 20] else ss)
                  else ss)
        = (\<lambda>(i, k) ss. case default_of (proteinlist mg) k of None \<Rightarrow> ss | Some v \<Rightarrow> ss[i := v])"
    by (auto simp: fun_eq_iff default_of_def)
  then show ?thesis unfolding ss_defaults_def by simp
qed

lemma ss_defaults_nth:
  assumes "i < length (varmapper mg)"
  shows "ss_defaults mg ! i =
           (if sublist ''x_'' (varmapper mg ! i) then 1
            else if sublist ''p_'' (varmapper mg ! i)
                    \<and> replace_p (varmapper mg ! i) \<in> set (proteinlist mg) then 20
            else 0)"
proof -
  have j: "i < length (replicate (length (varmapper mg)) (0::real))" using assms by simp
  show ?thesis
    unfolding ss_defaults_fold
    using fold_enumerate_assign[OF j, of "default_of (proteinlist mg)" 0 "varmapper mg"] assms
    by (simp add: default_of_def)
qed

lemma length_ss_defaults: "length (ss_defaults mg) = length (varmapper mg)"
proof (cases "varmapper mg")
  case Nil
  then show ?thesis by (simp add: ss_defaults_def)
next
  case (Cons k ks)
  then have j: "0 < length (replicate (length (varmapper mg)) (0::real))" by simp
  show ?thesis
    unfolding ss_defaults_fold
    using fold_enumerate_assign[OF j, of "default_of (proteinlist mg)" 0 "varmapper mg"]
    by simp
qed

lemma fold_enumerate_map:
  "fold (\<lambda>(i, k) m. m(k \<mapsto> i)) (enumerate n xs) m0 k = Some j \<Longrightarrow>
   (n \<le> j \<and> j < n + length xs \<and> xs ! (j - n) = k) \<or> m0 k = Some j"
proof (induction xs arbitrary: n m0)
  case Nil
  then show ?case by simp
next
  case (Cons x xs)
  from Cons.prems have "fold (\<lambda>(i, k) m. m(k \<mapsto> i)) (enumerate (Suc n) xs) (m0(x \<mapsto> n)) k = Some j"
    by (simp del: fun_upd_apply)
  from Cons.IH[OF this] show ?case
  proof
    assume "Suc n \<le> j \<and> j < Suc n + length xs \<and> xs ! (j - Suc n) = k"
    then show ?thesis by (auto simp: Suc_diff_le)
  next
    assume "(m0(x \<mapsto> n)) k = Some j"
    then show ?thesis by (auto split: if_splits)
  qed
qed

lemma fold_enumerate_dom:
  "k \<in> set xs \<or> k \<in> dom m0 \<Longrightarrow>
   \<exists>j. fold (\<lambda>(i, k) m. m(k \<mapsto> i)) (enumerate n xs) m0 k = Some j"
proof (induction xs arbitrary: n m0)
  case Nil
  then show ?case by auto
next
  case (Cons x xs)
  have "k \<in> set xs \<or> k \<in> dom (m0(x \<mapsto> n))" using Cons.prems by auto
  from Cons.IH[OF this] show ?case by (simp del: fun_upd_apply)
qed

lemma revvarmapper_Some:
  "revvarmapper mg k = Some j \<Longrightarrow> j < length (varmapper mg) \<and> varmapper mg ! j = k"
  unfolding revvarmapper_def using fold_enumerate_map[of 0 "varmapper mg" Map.empty k j] by simp

lemma revvarmapper_mem:
  "k \<in> set (varmapper mg) \<Longrightarrow> \<exists>j. revvarmapper mg k = Some j"
  unfolding revvarmapper_def using fold_enumerate_dom[of k "varmapper mg" Map.empty 0] by simp

lemma set_ics_Inr:
  "set_ics rvm im pre name ss = Inr ss' \<Longrightarrow>
   \<exists>j. rvm (pre @ name) = Some j
        \<and> ss' = ss[j := (case im name of Some v \<Rightarrow> v | None \<Rightarrow> 0.01)]"
  unfolding set_ics_def Let_def by (auto split: option.splits)

lemma for_each_set_ics:
  assumes "for_each (set_ics rvm im pre) names ss = Inr ss'"
    and rv: "\<And>k j. rvm k = Some j \<Longrightarrow> j < length ss \<and> vm ! j = k"
  shows "length ss' = length ss
       \<and> (\<forall>name\<in>set names. \<exists>j. rvm (pre @ name) = Some j
             \<and> ss' ! j = (case im name of Some v \<Rightarrow> v | None \<Rightarrow> 0.01))
       \<and> (\<forall>j. (\<forall>name\<in>set names. rvm (pre @ name) \<noteq> Some j) \<longrightarrow> ss' ! j = ss ! j)"
  using assms
proof (induction names arbitrary: ss)
  case Nil
  then show ?case by simp
next
  case (Cons name names)
  obtain ss1 where s1: "set_ics rvm im pre name ss = Inr ss1"
    and rest: "for_each (set_ics rvm im pre) names ss1 = Inr ss'"
    using Cons.prems(1) by (auto split: sum.splits)
  obtain j0 where j0: "rvm (pre @ name) = Some j0"
    and ss1: "ss1 = ss[j0 := (case im name of Some v \<Rightarrow> v | None \<Rightarrow> 0.01)]"
    using set_ics_Inr[OF s1] by blast
  have l1: "length ss1 = length ss" using ss1 by simp
  have rv1: "\<And>k j. rvm k = Some j \<Longrightarrow> j < length ss1 \<and> vm ! j = k"
    using Cons.prems(2) l1 by simp
  note IH = Cons.IH[OF rest rv1]
  have len: "length ss' = length ss" using IH l1 by simp
  have head: "ss' ! j0 = (case im name of Some v \<Rightarrow> v | None \<Rightarrow> 0.01)"
  proof (cases "\<exists>name'\<in>set names. rvm (pre @ name') = Some j0")
    case True
    then obtain name' where n': "name' \<in> set names" "rvm (pre @ name') = Some j0" by blast
    have "pre @ name' = pre @ name" using Cons.prems(2)[OF n'(2)] Cons.prems(2)[OF j0] by simp
    then have "name' = name" by simp
    then show ?thesis using IH n' j0 by auto
  next
    case False
    then have "ss' ! j0 = ss1 ! j0" using IH by blast
    then show ?thesis using ss1 Cons.prems(2)[OF j0] by simp
  qed
  have untouched: "\<forall>j. (\<forall>n\<in>set (name # names). rvm (pre @ n) \<noteq> Some j) \<longrightarrow> ss' ! j = ss ! j"
  proof (intro allI impI)
    fix j assume a: "\<forall>n\<in>set (name # names). rvm (pre @ n) \<noteq> Some j"
    then have "ss' ! j = ss1 ! j" using IH by simp
    moreover have "j \<noteq> j0" using a j0 by auto
    ultimately show "ss' ! j = ss ! j" using ss1 by simp
  qed
  show ?case using len head j0 IH untouched by auto
qed

lemma for_each_set_ics_total:
  assumes "\<forall>name\<in>set names. \<exists>j. rvm (pre @ name) = Some j"
  shows "\<exists>ss'. for_each (set_ics rvm im pre) names ss = Inr ss'"
  using assms
proof (induction names arbitrary: ss)
  case Nil
  then show ?case by simp
next
  case (Cons name names)
  then obtain j where "rvm (pre @ name) = Some j" by auto
  then have "\<exists>ss1. set_ics rvm im pre name ss = Inr ss1"
    unfolding set_ics_def Let_def by simp
  then show ?case using Cons by auto
qed

lemma override_pass_Inr:
  assumes ok: "override_pass mg im ss = Inr ss'" and len: "length ss = length (varmapper mg)"
  shows "length ss' = length (varmapper mg)
       \<and> (\<forall>p\<in>set (proteinlist mg). \<exists>j. revvarmapper mg (''p_'' @ p) = Some j
             \<and> ss' ! j = (case im p of Some v \<Rightarrow> v | None \<Rightarrow> 0.01))
       \<and> (\<forall>g\<in>set (genelist mg). \<exists>j. revvarmapper mg (''x_'' @ g) = Some j
             \<and> ss' ! j = (case im g of Some v \<Rightarrow> v | None \<Rightarrow> 0.01))"
proof -
  obtain ss1 where p: "for_each (set_ics (revvarmapper mg) im ''p_'') (proteinlist mg) ss = Inr ss1"
    and g: "for_each (set_ics (revvarmapper mg) im ''x_'') (genelist mg) ss1 = Inr ss'"
    using ok unfolding override_pass_def by (auto split: sum.splits)
  have rv: "\<And>k j. revvarmapper mg k = Some j \<Longrightarrow> j < length ss \<and> varmapper mg ! j = k"
    using revvarmapper_Some len by simp
  note P = for_each_set_ics[OF p rv]
  have rv1: "\<And>k j. revvarmapper mg k = Some j \<Longrightarrow> j < length ss1 \<and> varmapper mg ! j = k"
    using revvarmapper_Some len P by simp
  note G = for_each_set_ics[OF g rv1]
  have prot: "\<forall>p\<in>set (proteinlist mg). \<exists>j. revvarmapper mg (''p_'' @ p) = Some j
             \<and> ss' ! j = (case im p of Some v \<Rightarrow> v | None \<Rightarrow> 0.01)"
  proof
    fix p assume "p \<in> set (proteinlist mg)"
    then obtain j where j: "revvarmapper mg (''p_'' @ p) = Some j"
      and v: "ss1 ! j = (case im p of Some v \<Rightarrow> v | None \<Rightarrow> 0.01)" using P by blast
    have "\<forall>name\<in>set (genelist mg). revvarmapper mg (''x_'' @ name) \<noteq> Some j"
    proof
      fix name assume "name \<in> set (genelist mg)"
      show "revvarmapper mg (''x_'' @ name) \<noteq> Some j"
      proof
        assume "revvarmapper mg (''x_'' @ name) = Some j"
        then have "''x_'' @ name = ''p_'' @ p"
          using revvarmapper_Some[OF j] revvarmapper_Some[of mg "''x_'' @ name" j] by simp
        then show False by simp
      qed
    qed
    then have "ss' ! j = ss1 ! j" using G by blast
    then show "\<exists>j. revvarmapper mg (''p_'' @ p) = Some j
             \<and> ss' ! j = (case im p of Some v \<Rightarrow> v | None \<Rightarrow> 0.01)" using j v by auto
  qed
  show ?thesis using prot G P len by simp
qed

lemma override_pass_total:
  assumes "\<forall>p\<in>set (proteinlist mg). ''p_'' @ p \<in> set (varmapper mg)"
    and "\<forall>g\<in>set (genelist mg). ''x_'' @ g \<in> set (varmapper mg)"
  shows "\<exists>ss'. override_pass mg im ss = Inr ss'"
proof -
  have "\<forall>name\<in>set (proteinlist mg). \<exists>j. revvarmapper mg (''p_'' @ name) = Some j"
    using assms(1) revvarmapper_mem by blast
  then obtain ss1 where p: "for_each (set_ics (revvarmapper mg) im ''p_'') (proteinlist mg) ss = Inr ss1"
    using for_each_set_ics_total by blast
  have "\<forall>name\<in>set (genelist mg). \<exists>j. revvarmapper mg (''x_'' @ name) = Some j"
    using assms(2) revvarmapper_mem by blast
  then obtain ss' where "for_each (set_ics (revvarmapper mg) im ''x_'') (genelist mg) ss1 = Inr ss'"
    using for_each_set_ics_total by blast
  then show ?thesis using p unfolding override_pass_def by simp
qed

lemma for_each_same_body:
  assumes "for_each (\<lambda>k. f) xs s = Inr s'" and "xs \<noteq> []" and "I s"
    and step: "\<And>t t'. I t \<Longrightarrow> f t = Inr t' \<Longrightarrow> I t'"
  shows "\<exists>t. I t \<and> f t = Inr s'"
  using assms(1-3)
proof (induction xs arbitrary: s)
  case Nil
  then show ?case by simp
next
  case (Cons x xs)
  obtain s1 where s1: "f s = Inr s1" and rest: "for_each (\<lambda>k. f) xs s1 = Inr s'"
    using Cons.prems(1) by (auto split: sum.splits)
  show ?case
  proof (cases "xs = []")
    case True
    then show ?thesis using s1 rest Cons.prems(3) by auto
  next
    case False
    show ?thesis using Cons.IH[OF rest False step[OF Cons.prems(3) s1]] .
  qed
qed

lemma for_each_same_body_total:
  assumes "\<And>t. \<exists>t'. f t = Inr t'"
  shows "\<exists>s'. for_each (\<lambda>k. f) xs s = Inr s'"
proof (induction xs arbitrary: s)
  case Nil
  then show ?case by simp
next
  case (Cons x xs)
  obtain s1 where "f s = Inr s1" using assms by blast
  then show ?case using Cons by auto
qed

lemma icsmap_map_of: "icsmap genes values = map_of (rev (zip genes values))"
proof -
  have "fold (\<lambda>(g, v) m. m(g \<mapsto> v)) xs m0 = m0 ++ map_of (rev xs)"
    for xs :: "(string \<times> real) list" and m0
  proof (induction xs arbitrary: m0)
    case Nil
    then show ?case by simp
  next
    case (Cons x xs)
    obtain g v where x: "x = (g, v)" by (cases x)
    have "fold (\<lambda>(g, v) m. m(g \<mapsto> v)) (x # xs) m0 = (m0(g \<mapsto> v)) ++ map_of (rev xs)"
      using Cons.IH[of "m0(g \<mapsto> v)"] x by (simp del: fun_upd_apply)
    also have "\<dots> = m0 ++ map_of (rev (x # xs))"
      unfolding x by (auto simp: fun_eq_iff map_add_def split: option.splits)
    finally show ?case .
  qed
  then show ?thesis unfolding icsmap_def by simp
qed

lemma build_ss_override:
  assumes ne: "varmapper mg \<noteq> []" and ok: "build_ss mg (Some (genes, values)) = Inr ss"
  shows "length ss = length (varmapper mg)
       \<and> (\<forall>p\<in>set (proteinlist mg). \<exists>j. revvarmapper mg (''p_'' @ p) = Some j
             \<and> ss ! j = (case icsmap genes values p of Some v \<Rightarrow> v | None \<Rightarrow> 0.01))
       \<and> (\<forall>g\<in>set (genelist mg). \<exists>j. revvarmapper mg (''x_'' @ g) = Some j
             \<and> ss ! j = (case icsmap genes values g of Some v \<Rightarrow> v | None \<Rightarrow> 0.01))"
proof -
  let ?f = "override_pass mg (icsmap genes values)"
  have fe: "for_each (\<lambda>k. ?f) (varmapper mg) (ss_defaults mg) = Inr ss"
    using ok unfolding build_ss_def by simp
  have step: "\<And>t t'. length t = length (varmapper mg) \<Longrightarrow> ?f t = Inr t'
                \<Longrightarrow> length t' = length (varmapper mg)"
    using override_pass_Inr by blast
  obtain t where t: "length t = length (varmapper mg)" and last: "?f t = Inr ss"
    using for_each_same_body[OF fe ne, of "\<lambda>t. length t = length (varmapper mg)"]
      length_ss_defaults step by blast
  show ?thesis using override_pass_Inr[OF last t] .
qed

text \<open>
  C5, as amended. Without an override table, \<^verbatim>\<open>ss\<close> holds 1.0 at every variable whose
  name contains \<^verbatim>\<open>x_\<close>; at any other variable whose name contains \<^verbatim>\<open>p_\<close> it holds
  20.0 when the name with \<^verbatim>\<open>p_\<close> removed is in \<^verbatim>\<open>mg.proteinlist\<close>, and 0.0 otherwise.
  With an override table (and at least one variable), for every \<open>p\<close> in
  \<^verbatim>\<open>mg.proteinlist\<close> the variable \<^verbatim>\<open>p_\<close>\<open>p\<close>, and for every \<open>g\<close> in \<^verbatim>\<open>mg.genelist\<close>
  the variable \<^verbatim>\<open>x_\<close>\<open>g\<close>, holds the value the table gives that name, or 0.01 when the
  table does not name it; the construction succeeds when all these variables exist.
\<close>

theorem initial_condition_vector:
  "(build_ss mg None = Inr (ss_defaults mg)
      \<and> length (ss_defaults mg) = length (varmapper mg)
      \<and> (\<forall>i<length (varmapper mg).
            ss_defaults mg ! i =
              (if sublist ''x_'' (varmapper mg ! i) then 1
               else if sublist ''p_'' (varmapper mg ! i)
                       \<and> replace_p (varmapper mg ! i) \<in> set (proteinlist mg) then 20
               else 0)))
   \<and> (\<forall>ss. varmapper mg \<noteq> [] \<and> build_ss mg (Some (genes, values)) = Inr ss \<longrightarrow>
          length ss = length (varmapper mg)
          \<and> (\<forall>p\<in>set (proteinlist mg).
                \<exists>j<length ss. revvarmapper mg (''p_'' @ p) = Some j \<and> varmapper mg ! j = ''p_'' @ p
                  \<and> ss ! j = (case icsmap genes values p of Some v \<Rightarrow> v | None \<Rightarrow> 0.01))
          \<and> (\<forall>g\<in>set (genelist mg).
                \<exists>j<length ss. revvarmapper mg (''x_'' @ g) = Some j \<and> varmapper mg ! j = ''x_'' @ g
                  \<and> ss ! j = (case icsmap genes values g of Some v \<Rightarrow> v | None \<Rightarrow> 0.01)))
   \<and> ((\<forall>p\<in>set (proteinlist mg). ''p_'' @ p \<in> set (varmapper mg))
        \<and> (\<forall>g\<in>set (genelist mg). ''x_'' @ g \<in> set (varmapper mg))
       \<longrightarrow> (\<exists>ss. build_ss mg (Some (genes, values)) = Inr ss))"
proof (intro conjI allI impI)
  show "build_ss mg None = Inr (ss_defaults mg)" by (simp add: build_ss_def)
  show "length (ss_defaults mg) = length (varmapper mg)" by (rule length_ss_defaults)
next
  fix i assume "i < length (varmapper mg)"
  then show "ss_defaults mg ! i =
              (if sublist ''x_'' (varmapper mg ! i) then 1
               else if sublist ''p_'' (varmapper mg ! i)
                       \<and> replace_p (varmapper mg ! i) \<in> set (proteinlist mg) then 20
               else 0)"
    by (rule ss_defaults_nth)
next
  fix ss assume h: "varmapper mg \<noteq> [] \<and> build_ss mg (Some (genes, values)) = Inr ss"
  then have ne: "varmapper mg \<noteq> []" and ok: "build_ss mg (Some (genes, values)) = Inr ss"
    by simp_all
  note O = build_ss_override[OF ne ok]
  show "length ss = length (varmapper mg)" using O by simp
  show "\<forall>p\<in>set (proteinlist mg).
                \<exists>j<length ss. revvarmapper mg (''p_'' @ p) = Some j \<and> varmapper mg ! j = ''p_'' @ p
                  \<and> ss ! j = (case icsmap genes values p of Some v \<Rightarrow> v | None \<Rightarrow> 0.01)"
  proof
    fix p assume "p \<in> set (proteinlist mg)"
    then obtain j where j: "revvarmapper mg (''p_'' @ p) = Some j"
      and v: "ss ! j = (case icsmap genes values p of Some v \<Rightarrow> v | None \<Rightarrow> 0.01)"
      using O by blast
    have "j < length ss" "varmapper mg ! j = ''p_'' @ p" using revvarmapper_Some[OF j] O by simp_all
    then show "\<exists>j<length ss. revvarmapper mg (''p_'' @ p) = Some j \<and> varmapper mg ! j = ''p_'' @ p
                  \<and> ss ! j = (case icsmap genes values p of Some v \<Rightarrow> v | None \<Rightarrow> 0.01)"
      using j v by blast
  qed
  show "\<forall>g\<in>set (genelist mg).
                \<exists>j<length ss. revvarmapper mg (''x_'' @ g) = Some j \<and> varmapper mg ! j = ''x_'' @ g
                  \<and> ss ! j = (case icsmap genes values g of Some v \<Rightarrow> v | None \<Rightarrow> 0.01)"
  proof
    fix g assume "g \<in> set (genelist mg)"
    then obtain j where j: "revvarmapper mg (''x_'' @ g) = Some j"
      and v: "ss ! j = (case icsmap genes values g of Some v \<Rightarrow> v | None \<Rightarrow> 0.01)"
      using O by blast
    have "j < length ss" "varmapper mg ! j = ''x_'' @ g" using revvarmapper_Some[OF j] O by simp_all
    then show "\<exists>j<length ss. revvarmapper mg (''x_'' @ g) = Some j \<and> varmapper mg ! j = ''x_'' @ g
                  \<and> ss ! j = (case icsmap genes values g of Some v \<Rightarrow> v | None \<Rightarrow> 0.01)"
      using j v by blast
  qed
next
  assume h: "(\<forall>p\<in>set (proteinlist mg). ''p_'' @ p \<in> set (varmapper mg))
        \<and> (\<forall>g\<in>set (genelist mg). ''x_'' @ g \<in> set (varmapper mg))"
  have "\<And>t. \<exists>t'. override_pass mg (icsmap genes values) t = Inr t'"
    using override_pass_total h by blast
  then have "\<exists>ss. for_each (\<lambda>k. override_pass mg (icsmap genes values)) (varmapper mg)
                (ss_defaults mg) = Inr ss"
    by (rule for_each_same_body_total)
  then show "\<exists>ss. build_ss mg (Some (genes, values)) = Inr ss"
    unfolding build_ss_def by simp
qed

lemma example_override:
  "build_ss example_mg_protein (Some ([''g''], [0.7])) = Inr [0.7, 0, 0.01]"
  by (simp add: build_ss_def ss_defaults_def example_mg_protein_def sublist_code override_pass_def
      set_ics_def revvarmapper_def icsmap_def)

theorem initial_condition_vector_witness:
  "varmapper example_mg_protein \<noteq> []
   \<and> build_ss example_mg_protein (Some ([''g''], [0.7])) = Inr [0.7, 0, 0.01]
   \<and> build_ss example_mg_protein None = Inr (ss_defaults example_mg_protein)
   \<and> ss_defaults example_mg_protein = [1, 0, 20]
   \<and> length [0.7, 0, 0.01 :: real] = length (varmapper example_mg_protein)
   \<and> (\<exists>j<length [0.7, 0, 0.01 :: real].
         revvarmapper example_mg_protein (''p_'' @ ''q'') = Some j
         \<and> varmapper example_mg_protein ! j = ''p_'' @ ''q''
         \<and> [0.7, 0, 0.01 :: real] ! j
             = (case icsmap [''g''] [0.7] ''q'' of Some v \<Rightarrow> v | None \<Rightarrow> 0.01))
   \<and> (\<exists>j<length [0.7, 0, 0.01 :: real].
         revvarmapper example_mg_protein (''x_'' @ ''g'') = Some j
         \<and> varmapper example_mg_protein ! j = ''x_'' @ ''g''
         \<and> [0.7, 0, 0.01 :: real] ! j
             = (case icsmap [''g''] [0.7] ''g'' of Some v \<Rightarrow> v | None \<Rightarrow> 0.01))"
proof -
  have ne: "varmapper example_mg_protein \<noteq> []" by (simp add: example_mg_protein_def)
  have d: "ss_defaults example_mg_protein = [1, 0, 20]"
    by (simp add: ss_defaults_def example_mg_protein_def sublist_code)
  have pl: "''q'' \<in> set (proteinlist example_mg_protein)"
    and gl: "''g'' \<in> set (genelist example_mg_protein)"
    by (simp_all add: example_mg_protein_def)
  note T = initial_condition_vector[of example_mg_protein "[''g'']" "[0.7]"]
  note A = T[THEN conjunct1, THEN conjunct1]
  note B = T[THEN conjunct2, THEN conjunct1, rule_format, OF conjI[OF ne example_override]]
  note B1 = B[THEN conjunct1]
  note B2 = B[THEN conjunct2, THEN conjunct1, THEN bspec, OF pl]
  note B3 = B[THEN conjunct2, THEN conjunct2, THEN bspec, OF gl]
  show ?thesis
    by (intro conjI) (rule ne example_override A d B1 B2 B3)+
qed

text \<open>
  The claim as stated fails without any override. In the model with one gene \<open>g\<close> and no
  protein-only species, the vector is \<open>[1, 0]\<close>: the variable \<open>p_g\<close> has a name
  containing \<^verbatim>\<open>p_\<close>, but \<open>g\<close> is not in \<^verbatim>\<open>mg.proteinlist\<close>, so line 79 is skipped
  and the entry keeps the 0 of \<^verbatim>\<open>np.zeros\<close>.
\<close>

theorem protein_variable_not_20:
  "build_ss example_mg None = Inr [1, 0]
   \<and> varmapper example_mg ! 1 = ''p_g''
   \<and> sublist ''p_'' (varmapper example_mg ! 1)
   \<and> [1, 0 :: real] ! 1 \<noteq> 20"
  by (simp add: build_ss_def ss_defaults_def example_mg_def sublist_code)

subsection \<open>The sampled single-observation file\<close>

lemma example_sampled:
  "simulateAndSample example_env (example_args True 0) [] =
     Some (Inr (),
       [(''out/simulations/E0.csv'',
          \<lparr>index = [''g''], columns = [''E0_1'', ''E0_2'', ''E0_3''], vals = map (map Finite) [[0.5, 1.5, 0.25]]\<rparr>),
        (''out/simulationsE0-cell.csv'',
          \<lparr>index = [''E0_2''], columns = [''g''], vals = map (map Finite) [[1.5]]\<rparr>)])"
  unfolding simulateAndSample_def example_loop
  by (simp add: sample_and_save_def single_timepoint_def example_args_def example_env_def
      example_high_def select_rows_def select_cols_def np_index_def timePoints_def DataFrame_def
      to_csv_def frame_T_def path_join_def str_nat.simps upt_rec)

text \<open>
  C9. The claim puts the sampled observation of a cell at
  \<^verbatim>\<open>outprefix/simulations/E{cellid}-cell.csv\<close>. Line 383 appends the file name to the
  directory path without a separator, where line 405 uses \<^verbatim>\<open>os.path.join\<close>: for the
  output prefix \<^verbatim>\<open>out\<close> and cell 0 the table \<^verbatim>\<open>E0.csv\<close> goes into
  \<^verbatim>\<open>out/simulations\<close>, but the sample is written to \<^verbatim>\<open>out/simulationsE0-cell.csv\<close>,
  and no file \<^verbatim>\<open>out/simulations/E0-cell.csv\<close> exists.
\<close>

theorem sample_file_beside_simulations:
  "simulateAndSample example_env (example_args True 0) [] =
     Some (Inr (),
       [(''out/simulations/E0.csv'',
          \<lparr>index = [''g''], columns = [''E0_1'', ''E0_2'', ''E0_3''], vals = map (map Finite) [[0.5, 1.5, 0.25]]\<rparr>),
        (''out/simulationsE0-cell.csv'',
          \<lparr>index = [''E0_2''], columns = [''g''], vals = map (map Finite) [[1.5]]\<rparr>)])
   \<and> ''out/simulations/E0-cell.csv''
        \<notin> written [(''out/simulations/E0.csv'',
              \<lparr>index = [''g''], columns = [''E0_1'', ''E0_2'', ''E0_3''], vals = map (map Finite) [[0.5, 1.5, 0.25]]\<rparr>),
            (''out/simulationsE0-cell.csv'',
              \<lparr>index = [''E0_2''], columns = [''g''], vals = map (map Finite) [[1.5]]\<rparr>)]"
  using example_sampled by (simp add: written_def)

subsection \<open>Experiment on the concrete run\<close>

lemma example_y0: "y0 example_mg = Inr [1, 20]"
  by (simp add: y0_def example_mg_def upt_rec)

lemma example_ss: "build_ss example_mg None = Inr [1, 0]"
  by (simp add: build_ss_def ss_defaults_def example_mg_def sublist_code)

lemma example_rnaIndex: "rnaIndex example_mg = [0]"
  by (simp add: rnaIndex_def example_mg_def sublist_code upt_rec)

lemma example_mg_fields:
  "x_max example_mg = 2" "genelist example_mg = [''g'']" "proteinlist example_mg = []"
  by (simp_all add: example_mg_def)

lemma example_header: "make_header example_env [0, 1, 2, 3] 1 = Inr [''E0_2'']"
  by (simp add: make_header_def example_env_def str_nat.simps upt_rec)

lemma example_job_loop:
  "retry_loop (simulate example_env ss) [0] 2 0 0 = Some (Inr (example_high, 3))"
  using example_retry by (simp add: example_env_def example_sim_def[abs_def])

lemma example_job:
  "simulateAndSample example_env
     (make_argdict example_mg (example_settings False 0 k) [1, 0] [] 0) [] =
     Some (Inr (), [(''out/simulations/E0.csv'',
        \<lparr>index = [''g''], columns = [''E0_1'', ''E0_2'', ''E0_3''], vals = map (map Finite) [[0.5, 1.5, 0.25]]\<rparr>)])"
  unfolding simulateAndSample_def
  by (simp add: make_argdict_def example_rnaIndex example_mg_fields example_settings_def
        example_job_loop,
      simp add: sample_and_save_def single_timepoint_def example_high_def
      select_rows_def select_cols_def np_index_def timePoints_def DataFrame_def to_csv_def
      path_join_def str_nat.simps upt_rec)

lemma example_run:
  "Experiment example_env example_mg [0, 1, 2, 3] (example_settings False 0 2) None [] =
     Some (Inr [\<lparr>index = [''E0_1'', ''E0_2'', ''E0_3''], columns = [''g''], vals = map (map Finite) [[0.5], [1.5], [0.25]]\<rparr>],
       [(''out/ClusterIds.csv'', \<lparr>index = [''E0''], columns = [''cl''], vals = map (map Finite) [[0]]\<rparr>),
        (''out/simulations/E0.csv'',
          \<lparr>index = [''g''], columns = [''E0_1'', ''E0_2'', ''E0_3''], vals = map (map Finite) [[0.5, 1.5, 0.25]]\<rparr>)])"
proof -
  have st: "num_cells (example_settings False 0 2) = 1" "sample_cells (example_settings False 0 2) = False"
    "proteinlist example_mg = []"
    by (simp_all add: example_settings_def example_mg_def)
  have cells: "[0..<1] = [0::nat]" by (simp add: upt_rec)
  show ?thesis
    unfolding Experiment_def experiment_setup_def experiment_aggregate_def example_y0 example_ss st cells
    apply (simp add: example_job)
    apply (simp add: aggregate_cell_def read_csv_def example_settings_def str_nat.simps
        sort_index_def ravel_def frame_T_def dict_set_def cluster_def example_env_def
        DataFrame_def to_csv_def upt_rec)
    done
qed

subsection \<open>The files a run writes\<close>

lemma path_join_suffix: "\<exists>pre. path_join a b = pre @ b"
  unfolding path_join_def by (metis append_Nil append_assoc)

lemma str_nat_last: "last (str_nat n) \<in> set ''0123456789''"
proof -
  have d: "k < 10 \<Longrightarrow> ''0123456789'' ! k \<in> set ''0123456789''" for k :: nat
    by (rule nth_mem) simp
  show ?thesis
  proof (cases "n < 10")
    case True
    then show ?thesis using d[of n] by (subst str_nat.simps) (simp del: list.set)
  next
    case False
    have "n mod 10 < 10" by simp
    then show ?thesis using False d[of "n mod 10"] by (subst str_nat.simps) (simp del: list.set)
  qed
qed

lemma cluster_csv_not_cell: "cluster_csv op \<noteq> cell_csv op' c"
proof
  assume e: "cluster_csv op = cell_csv op' c"
  obtain pre where "cell_csv op' c = pre @ ''E'' @ str_nat c @ ''.csv''"
    unfolding cell_csv_def using path_join_suffix by blast
  then have "(op @ ''/ClusterIds'') @ ''.csv'' = (pre @ ''E'' @ str_nat c) @ ''.csv''"
    using e unfolding cluster_csv_def by simp
  then have "op @ ''/ClusterIds'' = pre @ ''E'' @ str_nat c" by (simp only: append_same_eq)
  then have "last (op @ ''/ClusterIds'') = last (pre @ ''E'' @ str_nat c)" by simp
  then have "CHR ''s'' = last (str_nat c)" using str_nat_nonempty[of c] by simp
  then show False using str_nat_last[of c] by auto
qed

lemma cluster_csv_not_sample: "cluster_csv op \<noteq> sample_csv op' c"
proof
  assume e: "cluster_csv op = sample_csv op' c"
  then have "(op @ ''/ClusterIds'') @ ''.csv''
              = (path_join op' ''simulations'' @ ''E'' @ str_nat c @ ''-cell'') @ ''.csv''"
    unfolding cluster_csv_def sample_csv_def by simp
  then have "op @ ''/ClusterIds'' = path_join op' ''simulations'' @ ''E'' @ str_nat c @ ''-cell''"
    by (simp only: append_same_eq)
  then have "last (op @ ''/ClusterIds'')
               = last (path_join op' ''simulations'' @ ''E'' @ str_nat c @ ''-cell'')"
    by simp
  then show False by simp
qed

lemma written_to_csv: "written (to_csv p df files) = insert p (written files)"
  by (simp add: written_def to_csv_def)

lemma single_timepoint_written:
  assumes "single_timepoint env a outp P files = (r, files')"
  shows "files' = files
       \<or> (\<exists>sdf. files' = to_csv (outp @ ''E'' @ str_nat (arg_cellid a) @ ''-cell.csv'') sdf files)"
  using assms unfolding single_timepoint_def Let_def
  by (auto split: sum.splits if_splits)

lemma sample_and_save_written:
  assumes "sample_and_save env a P files = (r, files')"
  shows "written files \<subseteq> written files'"
    and "written files' \<subseteq> written files
           \<union> {cell_csv (arg_outPrefix a) (arg_cellid a), sample_csv (arg_outPrefix a) (arg_cellid a)}"
    and "r = Inr () \<Longrightarrow> cell_csv (arg_outPrefix a) (arg_cellid a) \<in> written files'"
proof -
  let ?outp = "path_join (arg_outPrefix a) ''simulations''"
  obtain r1 files1 where
    b: "(if arg_n_snapshots a = 0 then single_timepoint env a ?outp P files
         else (snapshots env a P, files)) = (r1, files1)"
    by (cases "if arg_n_snapshots a = 0 then single_timepoint env a ?outp P files
               else (snapshots env a P, files)") blast
  have f1: "files1 = files \<or> (\<exists>sdf. files1 = to_csv (sample_csv (arg_outPrefix a) (arg_cellid a)) sdf files)"
    using b single_timepoint_written[of env a ?outp P files]
    unfolding sample_csv_def by (auto split: if_splits)
  have w1: "written files \<subseteq> written files1"
    "written files1 \<subseteq> written files \<union> {sample_csv (arg_outPrefix a) (arg_cellid a)}"
    using f1 by (auto simp: written_to_csv)
  have res: "(r = Inr () \<and> (\<exists>df. files' = to_csv (cell_csv (arg_outPrefix a) (arg_cellid a)) df files1))
           \<or> ((\<exists>e. r = Inl e) \<and> files' = files1)"
    using assms b unfolding sample_and_save_def Let_def cell_csv_def
    by (auto split: sum.splits)
  show "written files \<subseteq> written files'" using res w1 by (auto simp: written_to_csv)
  show "written files' \<subseteq> written files
           \<union> {cell_csv (arg_outPrefix a) (arg_cellid a), sample_csv (arg_outPrefix a) (arg_cellid a)}"
    using res w1 by (auto simp: written_to_csv)
  show "r = Inr () \<Longrightarrow> cell_csv (arg_outPrefix a) (arg_cellid a) \<in> written files'"
    using res by (auto simp: written_to_csv)
qed

lemma simulateAndSample_written:
  assumes "simulateAndSample env a files = Some (r, files')"
  shows "written files \<subseteq> written files'"
    and "written files' \<subseteq> written files
           \<union> {cell_csv (arg_outPrefix a) (arg_cellid a), sample_csv (arg_outPrefix a) (arg_cellid a)}"
    and "r = Inr () \<Longrightarrow> cell_csv (arg_outPrefix a) (arg_cellid a) \<in> written files'"
proof -
  have "(r, files') = (r, files) \<and> (\<exists>e. r = Inl e)
        \<or> (\<exists>P. sample_and_save env a P files = (r, files'))"
    using assms unfolding simulateAndSample_def
    by (auto split: option.splits sum.splits prod.splits)
  then show "written files \<subseteq> written files'"
    and "written files' \<subseteq> written files
           \<union> {cell_csv (arg_outPrefix a) (arg_cellid a), sample_csv (arg_outPrefix a) (arg_cellid a)}"
    and "r = Inr () \<Longrightarrow> cell_csv (arg_outPrefix a) (arg_cellid a) \<in> written files'"
    using sample_and_save_written[of env a _ files r files'] by auto
qed

lemma run_cells_written:
  assumes "run_cells (\<lambda>c. simulateAndSample env (make_argdict mg st ss header c)) cs files
             = Some (r, files')"
  shows "written files \<subseteq> written files'
       \<and> written files' \<subseteq> written files
             \<union> (\<Union>c\<in>set cs. {cell_csv (outprefix st) c, sample_csv (outprefix st) c})
       \<and> (r = Inr () \<longrightarrow> (\<forall>c\<in>set cs. cell_csv (outprefix st) c \<in> written files'))"
  using assms
proof (induction cs arbitrary: files)
  case Nil
  then show ?case by simp
next
  case (Cons c cs)
  let ?a = "make_argdict mg st ss header c"
  have a: "arg_outPrefix ?a = outprefix st" "arg_cellid ?a = c" by (simp_all add: make_argdict_def)
  obtain r1 files1 where j: "simulateAndSample env ?a files = Some (r1, files1)"
    using Cons.prems by (auto split: option.splits)
  note W = simulateAndSample_written[OF j, unfolded a]
  show ?case
  proof (cases r1)
    case (Inl e)
    then have "r = Inl e" "files' = files1" using Cons.prems j by simp_all
    then show ?thesis using W by auto
  next
    case (Inr u)
    then have rest: "run_cells (\<lambda>c. simulateAndSample env (make_argdict mg st ss header c)) cs files1
             = Some (r, files')" using Cons.prems j by simp
    have "cell_csv (outprefix st) c \<in> written files1" using W(3) Inr by simp
    then show ?thesis using Cons.IH[OF rest] W(1,2) by auto
  qed
qed

subsection \<open>The cluster file\<close>

lemma cluster_outcome:
  assumes "cluster env st g files1 = (u, files2)"
  shows "(u = Inr () \<and> 1 < nClusters st \<and> n_snapshots st = 0
            \<and> (\<exists>df. files2 = to_csv (cluster_csv (outprefix st)) df files1))
       \<or> (files2 = files1 \<and> (u = Inr () \<longrightarrow> \<not> (1 < nClusters st \<and> n_snapshots st = 0)))"
  using assms unfolding cluster_def cluster_csv_def
  by (auto split: if_splits option.splits sum.splits)

lemma experiment_aggregate_written:
  assumes "experiment_aggregate env st g files1 = (r, files')"
  shows "written files' \<subseteq> written files1
           \<union> (if 1 < nClusters st \<and> n_snapshots st = 0 then {cluster_csv (outprefix st)} else {})"
    and "(\<exists>frames. r = Inr frames) \<Longrightarrow> 1 < nClusters st \<and> n_snapshots st = 0
           \<Longrightarrow> cluster_csv (outprefix st) \<in> written files'"
proof -
  have c: "(files' = files1 \<and> (\<exists>e. r = Inl e))
        \<or> (\<exists>g' u. cluster env st g' files1 = (u, files')
              \<and> ((\<exists>frames. r = Inr frames) \<longleftrightarrow> u = Inr ()))"
    using assms unfolding experiment_aggregate_def
    by (auto split: sum.splits prod.splits if_splits)
  show "written files' \<subseteq> written files1
           \<union> (if 1 < nClusters st \<and> n_snapshots st = 0 then {cluster_csv (outprefix st)} else {})"
    using c
  proof
    assume "files' = files1 \<and> (\<exists>e. r = Inl e)"
    then show ?thesis by auto
  next
    assume "\<exists>g' u. cluster env st g' files1 = (u, files')
              \<and> ((\<exists>frames. r = Inr frames) \<longleftrightarrow> u = Inr ())"
    then obtain g' u where cl: "cluster env st g' files1 = (u, files')" by blast
    from cluster_outcome[OF cl] show ?thesis by (auto simp: written_to_csv)
  qed
  show "cluster_csv (outprefix st) \<in> written files'"
    if r: "\<exists>frames. r = Inr frames" and cond: "1 < nClusters st \<and> n_snapshots st = 0"
    using c
  proof
    assume "files' = files1 \<and> (\<exists>e. r = Inl e)"
    then show ?thesis using r by auto
  next
    assume "\<exists>g' u. cluster env st g' files1 = (u, files')
              \<and> ((\<exists>frames. r = Inr frames) \<longleftrightarrow> u = Inr ())"
    then obtain g' u where cl: "cluster env st g' files1 = (u, files')" and u: "u = Inr ()"
      using r by blast
    from cluster_outcome[OF cl] show ?thesis using u cond by (auto simp: written_to_csv)
  qed
qed

lemma Experiment_phases:
  assumes "Experiment env mg tspan st icsDF files = Some (r, files')"
  shows "(files' = files \<and> (\<exists>e. r = Inl e))
      \<or> (\<exists>ss header g r1 files1.
            experiment_setup env mg tspan st icsDF = Inr (ss, header, g)
            \<and> run_cells (\<lambda>c. simulateAndSample env (make_argdict mg st ss header c))
                      [0..<num_cells st] files = Some (r1, files1)
            \<and> ((files' = files1 \<and> (\<exists>e. r = Inl e \<and> r1 = Inl e))
                \<or> (r1 = Inr () \<and> experiment_aggregate env st g files1 = (r, files'))))"
proof (cases "experiment_setup env mg tspan st icsDF")
  case (Inl e)
  then show ?thesis using assms unfolding Experiment_def by auto
next
  case (Inr x)
  obtain ss header g where x: "x = (ss, header, g)" by (cases x)
  let ?run = "run_cells (\<lambda>c. simulateAndSample env (make_argdict mg st ss header c))
                      [0..<num_cells st] files"
  have E: "(case ?run of
             None \<Rightarrow> None
           | Some (Inl e, files1) \<Rightarrow> Some (Inl e, files1)
           | Some (Inr u, files1) \<Rightarrow> Some (experiment_aggregate env st g files1))
           = Some (r, files')"
    using assms unfolding Experiment_def Inr x by simp
  then obtain r1 files1 where run: "?run = Some (r1, files1)" by (cases ?run) auto
  show ?thesis
  proof (cases r1)
    case (Inl e)
    then have "files' = files1" "r = Inl e" using E run by simp_all
    then show ?thesis using Inr x run Inl by blast
  next
    case r1: (Inr u)
    then have "experiment_aggregate env st g files1 = (r, files')" using E run by simp
    moreover have "r1 = Inr ()" using r1 by simp
    ultimately show ?thesis using Inr x run by blast
  qed
qed

lemma Experiment_written:
  assumes "Experiment env mg tspan st icsDF files = Some (r, files')"
  shows "written files' \<subseteq> written files
           \<union> (\<Union>c\<in>set [0..<num_cells st]. {cell_csv (outprefix st) c, sample_csv (outprefix st) c})
           \<union> (if 1 < nClusters st \<and> n_snapshots st = 0 then {cluster_csv (outprefix st)} else {})"
    and "(\<exists>frames. r = Inr frames) \<Longrightarrow> 1 < nClusters st \<and> n_snapshots st = 0
           \<Longrightarrow> cluster_csv (outprefix st) \<in> written files'"
proof -
  note ph = Experiment_phases[OF assms]
  show "written files' \<subseteq> written files
           \<union> (\<Union>c\<in>set [0..<num_cells st]. {cell_csv (outprefix st) c, sample_csv (outprefix st) c})
           \<union> (if 1 < nClusters st \<and> n_snapshots st = 0 then {cluster_csv (outprefix st)} else {})"
    using ph
  proof (elim disjE exE conjE)
    assume "files' = files"
    then show ?thesis by auto
  next
    fix ss header g r1 files1
    assume run: "run_cells (\<lambda>c. simulateAndSample env (make_argdict mg st ss header c))
                      [0..<num_cells st] files = Some (r1, files1)"
      and "files' = files1"
    then show ?thesis using run_cells_written[OF run] by auto
  next
    fix ss header g r1 files1
    assume run: "run_cells (\<lambda>c. simulateAndSample env (make_argdict mg st ss header c))
                      [0..<num_cells st] files = Some (r1, files1)"
      and agg: "experiment_aggregate env st g files1 = (r, files')"
    have a: "written files1 \<subseteq> written files
           \<union> (\<Union>c\<in>set [0..<num_cells st]. {cell_csv (outprefix st) c, sample_csv (outprefix st) c})"
      using run_cells_written[OF run] by blast
    show ?thesis using a experiment_aggregate_written(1)[OF agg] by blast
  qed
  show "cluster_csv (outprefix st) \<in> written files'"
    if r: "\<exists>frames. r = Inr frames" and cond: "1 < nClusters st \<and> n_snapshots st = 0"
    using ph
  proof (elim disjE exE conjE)
    fix e assume "r = Inl e"
    then show ?thesis using r by auto
  next
    fix ss header g r1 files1 e assume "r = Inl e"
    then show ?thesis using r by auto
  next
    fix ss header g r1 files1
    assume agg: "experiment_aggregate env st g files1 = (r, files')"
    show ?thesis using experiment_aggregate_written(2)[OF agg r cond] .
  qed
qed

text \<open>
  C6, as amended. A run writes \<^verbatim>\<open>ClusterIds.csv\<close> only if \<^verbatim>\<open>nClusters > 1\<close> and
  \<^verbatim>\<open>n_snapshots == 0\<close>; so with \<^verbatim>\<open>nClusters = 1\<close>, or with any snapshots, the file is
  never written. A run that returns its result has written the file exactly when
  \<^verbatim>\<open>nClusters > 1\<close> and \<^verbatim>\<open>n_snapshots == 0\<close>. (The file is the one at
  \<^verbatim>\<open>outprefix + '/ClusterIds.csv'\<close>, absent before the run.)
\<close>

theorem cluster_file_condition:
  assumes run: "Experiment env mg tspan st icsDF files = Some (r, files')"
    and fresh: "cluster_csv (outprefix st) \<notin> written files"
  shows "(cluster_csv (outprefix st) \<in> written files' \<longrightarrow> 1 < nClusters st \<and> n_snapshots st = 0)
       \<and> ((\<exists>frames. r = Inr frames) \<longrightarrow>
            (cluster_csv (outprefix st) \<in> written files' \<longleftrightarrow> 1 < nClusters st \<and> n_snapshots st = 0))"
proof -
  have only_if: "cluster_csv (outprefix st) \<in> written files' \<Longrightarrow> 1 < nClusters st \<and> n_snapshots st = 0"
  proof (rule ccontr)
    assume w: "cluster_csv (outprefix st) \<in> written files'"
      and n: "\<not> (1 < nClusters st \<and> n_snapshots st = 0)"
    have "cluster_csv (outprefix st) \<in> written files
           \<union> (\<Union>c\<in>set [0..<num_cells st]. {cell_csv (outprefix st) c, sample_csv (outprefix st) c})"
      using Experiment_written(1)[OF run] w n by auto
    then show False using fresh cluster_csv_not_cell cluster_csv_not_sample by auto
  qed
  show ?thesis using only_if Experiment_written(2)[OF run] by blast
qed

lemma example_run_unstable:
  "Experiment example_env_unstable example_mg [0, 1, 2, 3] (example_settings b 0 k) None [] =
     Some (Inl FloatingPointError, [])"
proof -
  have st: "num_cells (example_settings b 0 k) = 1" "proteinlist example_mg = []"
    by (simp_all add: example_settings_def example_mg_def)
  have cells: "[0..<1] = [0::nat]" by (simp add: upt_rec)
  have h: "make_header example_env_unstable [0, 1, 2, 3] (Suc 0) = Inr [''E0_2'']"
    by (simp add: make_header_def example_env_unstable_def example_env_def str_nat.simps upt_rec)
  have job: "simulateAndSample example_env_unstable a files = Some (Inl FloatingPointError, files)"
    for a files
    unfolding simulateAndSample_def
    by (simp add: retry_loop.simps example_env_unstable_def example_env_def)
  show ?thesis
    unfolding Experiment_def experiment_setup_def example_y0 example_ss st cells
    by (simp add: h job)
qed

theorem cluster_file_condition_witness:
  "Experiment example_env example_mg [0, 1, 2, 3] (example_settings False 0 2) None [] =
     Some (Inr [\<lparr>index = [''E0_1'', ''E0_2'', ''E0_3''], columns = [''g''], vals = map (map Finite) [[0.5], [1.5], [0.25]]\<rparr>],
       [(''out/ClusterIds.csv'', \<lparr>index = [''E0''], columns = [''cl''], vals = map (map Finite) [[0]]\<rparr>),
        (''out/simulations/E0.csv'',
          \<lparr>index = [''g''], columns = [''E0_1'', ''E0_2'', ''E0_3''], vals = map (map Finite) [[0.5, 1.5, 0.25]]\<rparr>)])
   \<and> cluster_csv (outprefix (example_settings False 0 2)) \<notin> written []
   \<and> cluster_csv (outprefix (example_settings False 0 2))
        \<in> written [(''out/ClusterIds.csv'', \<lparr>index = [''E0''], columns = [''cl''], vals = map (map Finite) [[0]]\<rparr>),
            (''out/simulations/E0.csv'',
              \<lparr>index = [''g''], columns = [''E0_1'', ''E0_2'', ''E0_3''], vals = map (map Finite) [[0.5, 1.5, 0.25]]\<rparr>)]
   \<and> 1 < nClusters (example_settings False 0 2)
   \<and> n_snapshots (example_settings False 0 2) = 0"
proof -
  have fresh: "cluster_csv (outprefix (example_settings False 0 2)) \<notin> written []"
    by (simp add: written_def)
  have w: "cluster_csv (outprefix (example_settings False 0 2))
        \<in> written [(''out/ClusterIds.csv'', \<lparr>index = [''E0''], columns = [''cl''], vals = map (map Finite) [[0]]\<rparr>),
            (''out/simulations/E0.csv'',
              \<lparr>index = [''g''], columns = [''E0_1'', ''E0_2'', ''E0_3''], vals = map (map Finite) [[0.5, 1.5, 0.25]]\<rparr>)]"
    by (simp add: written_def cluster_csv_def example_settings_def)
  note T = cluster_file_condition[OF example_run fresh, THEN conjunct1, THEN mp, OF w]
  show ?thesis using example_run fresh w T by blast
qed

text \<open>
  The claim as stated fails when a job raises: with \<^verbatim>\<open>nClusters = 2\<close> and
  \<^verbatim>\<open>n_snapshots = 0\<close>, a simulator that overflows ends the run with
  \<^verbatim>\<open>FloatingPointError\<close> and no \<^verbatim>\<open>ClusterIds.csv\<close> is written.
\<close>

theorem no_cluster_file_when_job_raises:
  "1 < nClusters (example_settings False 0 2)
   \<and> n_snapshots (example_settings False 0 2) = 0
   \<and> Experiment example_env_unstable example_mg [0, 1, 2, 3] (example_settings False 0 2) None []
        = Some (Inl FloatingPointError, [])
   \<and> cluster_csv (outprefix (example_settings False 0 2)) \<notin> written []"
  using example_run_unstable[of False 2] by (simp add: example_settings_def written_def)

subsection \<open>The unbound name in the set-up phase\<close>

lemma y0_total: "wf_model mg \<Longrightarrow> \<exists>y. y0 mg = Inr y"
proof -
  assume wf: "wf_model mg"
  have "\<exists>v. (case ModelSpec_ics mg (varmapper mg ! i) of
               None \<Rightarrow> Inl (KeyError (varmapper mg ! i))
             | Some v \<Rightarrow> Inr v) = Inr v"
    if "i \<in> set [0..<length (varmapper mg)]" for i
  proof -
    have "varmapper mg ! i \<in> set (varmapper mg)" using that by simp
    then have "ModelSpec_ics mg (varmapper mg ! i) \<noteq> None"
      using wf unfolding wf_model_def by (simp add: list_all_iff)
    then show ?thesis by (auto split: option.splits)
  qed
  then show ?thesis unfolding y0_def by (rule comprehension_total)
qed

lemma build_ss_total: "wf_model mg \<Longrightarrow> \<exists>ss. build_ss mg icsDF = Inr ss"
proof (cases icsDF)
  case None
  then show ?thesis by (simp add: build_ss_def)
next
  case (Some gv)
  assume wf: "wf_model mg"
  obtain genes vs where gv: "gv = (genes, vs)" by (cases gv)
  have "\<And>t. \<exists>t'. override_pass mg (icsmap genes vs) t = Inr t'"
    using override_pass_total[of mg] wf unfolding wf_model_def by (simp add: list_all_iff)
  then have "\<exists>ss. for_each (\<lambda>k. override_pass mg (icsmap genes vs)) (varmapper mg)
                (ss_defaults mg) = Inr ss"
    by (rule for_each_same_body_total)
  then show ?thesis unfolding build_ss_def Some gv by simp
qed

text \<open>
  C7. When the protein list of the model is not empty, \<^verbatim>\<open>Experiment\<close> ends with an
  exception and the files as they were, whatever the simulator would do: no job is
  started. For a model as the generator builds it (\<open>wf_model\<close>), so that the lines before
  line 101 do not raise, the exception is \<^verbatim>\<open>NameError\<close> for the name \<^verbatim>\<open>proteinlist\<close>.
\<close>

theorem protein_list_NameError:
  assumes "proteinlist mg \<noteq> []"
  shows "(\<exists>e. Experiment env mg tspan st icsDF files = Some (Inl e, files))
       \<and> (wf_model mg \<longrightarrow>
            Experiment env mg tspan st icsDF files = Some (Inl (NameError ''proteinlist''), files)
            \<and> is_NameError (NameError ''proteinlist''))"
proof
  have "\<exists>e. experiment_setup env mg tspan st icsDF = Inl e"
    using assms unfolding experiment_setup_def by (auto split: sum.splits)
  then show "\<exists>e. Experiment env mg tspan st icsDF files = Some (Inl e, files)"
    unfolding Experiment_def by auto
next
  show "wf_model mg \<longrightarrow>
            Experiment env mg tspan st icsDF files = Some (Inl (NameError ''proteinlist''), files)
            \<and> is_NameError (NameError ''proteinlist'')"
  proof
    assume wf: "wf_model mg"
    obtain y where y: "y0 mg = Inr y" using y0_total[OF wf] by blast
    obtain ss where ss: "build_ss mg icsDF = Inr ss" using build_ss_total[OF wf] by blast
    have "experiment_setup env mg tspan st icsDF = Inl (NameError ''proteinlist'')"
      using assms unfolding experiment_setup_def y ss by simp
    then show "Experiment env mg tspan st icsDF files = Some (Inl (NameError ''proteinlist''), files)
            \<and> is_NameError (NameError ''proteinlist'')"
      unfolding Experiment_def by simp
  qed
qed

lemma example_protein_wf: "wf_model example_mg_protein"
  by (simp add: wf_model_def example_mg_protein_def)

theorem protein_list_NameError_witness:
  "proteinlist example_mg_protein \<noteq> []
   \<and> wf_model example_mg_protein
   \<and> Experiment example_env example_mg_protein [0, 1, 2, 3] (example_settings False 0 2) None []
        = Some (Inl (NameError ''proteinlist''), [])"
proof -
  have pl: "proteinlist example_mg_protein \<noteq> []" by (simp add: example_mg_protein_def)
  show ?thesis
    using protein_list_NameError[OF pl, of example_env "[0, 1, 2, 3]" "example_settings False 0 2"
        None "[]"] pl example_protein_wf
    by blast
qed

subsection \<open>The unbound dictionary in the aggregation phase\<close>

lemma squash_double: "squash (xs @ CHR ''/'' # CHR ''/'' # ys) = squash (xs @ CHR ''/'' # ys)"
proof (induction xs)
  case Nil
  then show ?case by simp
next
  case (Cons a xs)
  show ?case
  proof (cases xs)
    case Nil
    then show ?thesis by simp
  next
    case (Cons b rest)
    then show ?thesis using Cons.IH by auto
  qed
qed

lemma squash_cell_csv:
  assumes "op \<noteq> []"
  shows "squash (cell_csv op c) = squash (op @ ''/simulations/E'' @ str_nat c @ ''.csv'')"
proof (cases "last op = CHR ''/''")
  case True
  obtain pre where pre: "op = pre @ ''/''"
    using assms True by (metis append_butlast_last_id)
  have "cell_csv op c = pre @ CHR ''/'' # (''simulations/E'' @ str_nat c @ ''.csv'')"
    using assms True unfolding cell_csv_def path_join_def pre by simp
  moreover have "op @ ''/simulations/E'' @ str_nat c @ ''.csv''
                 = pre @ CHR ''/'' # CHR ''/'' # (''simulations/E'' @ str_nat c @ ''.csv'')"
    unfolding pre by simp
  ultimately show ?thesis by (simp only: squash_double)
next
  case False
  then have "cell_csv op c = op @ ''/simulations/E'' @ str_nat c @ ''.csv''"
    using assms unfolding cell_csv_def path_join_def by simp
  then show ?thesis by simp
qed

lemma read_csv_written:
  assumes "p \<in> written files" and "squash p = squash q"
  shows "\<exists>df. read_csv q files = Inr df"
proof -
  have "squash q \<in> fst ` set (map (\<lambda>(p, df). (squash p, df)) files)"
    using assms unfolding written_def by force
  then have "map_of (map (\<lambda>(p, df). (squash p, df)) files) (squash q) \<noteq> None"
    by (simp only: map_of_eq_None_iff not_not)
  then show ?thesis unfolding read_csv_def by (auto split: option.splits)
qed

text \<open>
  C8, as amended. Take a run with \<^verbatim>\<open>sample_cells\<close> true and \<^verbatim>\<open>n_snapshots == 0\<close>, an
  empty protein list, at least one cell and a non-empty output prefix, in which the set-up
  phase and every job complete. Then all per-cell files \<^verbatim>\<open>E{cellid}.csv\<close> are written,
  and \<^verbatim>\<open>Experiment\<close> raises \<^verbatim>\<open>UnboundLocalError\<close> (a \<^verbatim>\<open>NameError\<close>) for
  \<^verbatim>\<open>groupedDict\<close> in the first pass of the aggregation loop, with the files as the jobs
  left them.
\<close>

theorem sampled_run_UnboundLocalError:
  assumes sc: "sample_cells st" and n0: "n_snapshots st = 0" and pl: "proteinlist mg = []"
    and nc: "0 < num_cells st" and op: "outprefix st \<noteq> []"
    and y: "y0 mg = Inr y" and ss: "build_ss mg icsDF = Inr ss"
    and h: "make_header env tspan (num_cells st) = Inr header"
    and run: "run_cells (\<lambda>cellid. simulateAndSample env (make_argdict mg st ss header cellid))
                [0..<num_cells st] files = Some (Inr (), files1)"
  shows "Experiment env mg tspan st icsDF files
           = Some (Inl (UnboundLocalError ''groupedDict''), files1)
       \<and> is_NameError (UnboundLocalError ''groupedDict'')
       \<and> (\<forall>c<num_cells st. cell_csv (outprefix st) c \<in> written files1)"
proof -
  have stp: "experiment_setup env mg tspan st icsDF = Inr (ss, header, None)"
    unfolding experiment_setup_def y ss using pl sc h by simp
  have all: "\<forall>c<num_cells st. cell_csv (outprefix st) c \<in> written files1"
    using run_cells_written[OF run] by simp
  then have "cell_csv (outprefix st) 0 \<in> written files1" using nc by blast
  then obtain df0 where rd:
    "read_csv (outprefix st @ ''/simulations/E'' @ str_nat 0 @ ''.csv'') files1 = Inr df0"
    using read_csv_written[OF _ squash_cell_csv[OF op]] by blast
  have first: "aggregate_cell st files1 0 (None, []) = Inl (UnboundLocalError ''groupedDict'')"
    unfolding aggregate_cell_def using rd n0 by (simp add: Let_def)
  have cells: "[0..<num_cells st] = 0 # [1..<num_cells st]"
    using nc by (simp add: upt_conv_Cons)
  have "for_each (aggregate_cell st files1) [0..<num_cells st] (None, [])
          = Inl (UnboundLocalError ''groupedDict'')"
    by (subst cells) (simp add: first)
  then have "experiment_aggregate env st None files1 = (Inl (UnboundLocalError ''groupedDict''), files1)"
    unfolding experiment_aggregate_def by simp
  then have "Experiment env mg tspan st icsDF files
           = Some (Inl (UnboundLocalError ''groupedDict''), files1)"
    unfolding Experiment_def stp using run by simp
  then show ?thesis using all by simp
qed

lemma example_job_sampled:
  "simulateAndSample example_env
     (make_argdict example_mg (example_settings True 0 k) [1, 0] [''E0_2''] 0) [] =
     Some (Inr (),
       [(''out/simulations/E0.csv'',
          \<lparr>index = [''g''], columns = [''E0_1'', ''E0_2'', ''E0_3''], vals = map (map Finite) [[0.5, 1.5, 0.25]]\<rparr>),
        (''out/simulationsE0-cell.csv'',
          \<lparr>index = [''E0_2''], columns = [''g''], vals = map (map Finite) [[1.5]]\<rparr>)])"
  unfolding simulateAndSample_def
  by (simp add: make_argdict_def example_rnaIndex example_mg_fields example_settings_def
        example_job_loop,
      simp add: sample_and_save_def single_timepoint_def example_high_def example_env_def
      select_rows_def select_cols_def np_index_def timePoints_def DataFrame_def to_csv_def
      frame_T_def path_join_def str_nat.simps upt_rec)

theorem sampled_run_UnboundLocalError_witness:
  "sample_cells (example_settings True 0 1)
   \<and> n_snapshots (example_settings True 0 1) = 0
   \<and> proteinlist example_mg = []
   \<and> 0 < num_cells (example_settings True 0 1)
   \<and> outprefix (example_settings True 0 1) \<noteq> []
   \<and> y0 example_mg = Inr [1, 20]
   \<and> build_ss example_mg None = Inr [1, 0]
   \<and> make_header example_env [0, 1, 2, 3] (num_cells (example_settings True 0 1)) = Inr [''E0_2'']
   \<and> Experiment example_env example_mg [0, 1, 2, 3] (example_settings True 0 1) None []
       = Some (Inl (UnboundLocalError ''groupedDict''),
           [(''out/simulations/E0.csv'',
              \<lparr>index = [''g''], columns = [''E0_1'', ''E0_2'', ''E0_3''], vals = map (map Finite) [[0.5, 1.5, 0.25]]\<rparr>),
            (''out/simulationsE0-cell.csv'',
              \<lparr>index = [''E0_2''], columns = [''g''], vals = map (map Finite) [[1.5]]\<rparr>)])"
proof -
  have st: "sample_cells (example_settings True 0 1)" "n_snapshots (example_settings True 0 1) = 0"
    "0 < num_cells (example_settings True 0 1)" "outprefix (example_settings True 0 1) \<noteq> []"
    by (simp_all add: example_settings_def)
  have nc: "num_cells (example_settings True 0 1) = 1" by (simp add: example_settings_def)
  have h: "make_header example_env [0, 1, 2, 3] (num_cells (example_settings True 0 1)) = Inr [''E0_2'']"
    unfolding nc by (rule example_header)
  have run: "run_cells (\<lambda>cellid. simulateAndSample example_env
                 (make_argdict example_mg (example_settings True 0 1) [1, 0] [''E0_2''] cellid))
               [0..<num_cells (example_settings True 0 1)] []
             = Some (Inr (),
       [(''out/simulations/E0.csv'',
          \<lparr>index = [''g''], columns = [''E0_1'', ''E0_2'', ''E0_3''], vals = map (map Finite) [[0.5, 1.5, 0.25]]\<rparr>),
        (''out/simulationsE0-cell.csv'',
          \<lparr>index = [''E0_2''], columns = [''g''], vals = map (map Finite) [[1.5]]\<rparr>)])"
    unfolding nc by (simp add: upt_rec example_job_sampled)
  note T = sampled_run_UnboundLocalError[OF st(1,2) example_mg_fields(3) st(3,4) example_y0
      example_ss h run, THEN conjunct1]
  show ?thesis
    by (intro conjI) (rule st example_mg_fields(3) example_y0 example_ss h T)+
qed

text \<open>
  The claim as stated fails when a job raises: with \<^verbatim>\<open>sample_cells\<close> true and
  \<^verbatim>\<open>n_snapshots = 0\<close>, a simulator that overflows ends the run in the simulation phase
  with \<^verbatim>\<open>FloatingPointError\<close>, which is no \<^verbatim>\<open>NameError\<close>; no per-cell file has been
  written and the aggregation loop is never entered.
\<close>

theorem sampled_run_other_exception:
  "sample_cells (example_settings True 0 1)
   \<and> n_snapshots (example_settings True 0 1) = 0
   \<and> Experiment example_env_unstable example_mg [0, 1, 2, 3] (example_settings True 0 1) None []
        = Some (Inl FloatingPointError, [])
   \<and> \<not> is_NameError FloatingPointError"
  using example_run_unstable[of True 1] by (simp add: example_settings_def)

end
